theory Spec2Isabelle
  imports Main "HOL-Library.Word"
begin

unbundle bit_operations_syntax

section \<open>The skip list of package skip: data model\<close>

text \<open>
  A Go byte slice is either \<open>nil\<close> or a (possibly empty) sequence of bytes; the code
  tests \<open>key == nil\<close>, so the model keeps the two apart: \<open>None\<close> is the nil slice and
  \<open>Some []\<close> the empty, non-nil one.
\<close>

type_synonym bytes = "8 word list option"

type_synonym nodeId = "32 word"

text \<open>
  \<open>skipPointer\<close> is the fixed-size array \<open>[maxHeight]nodeId\<close>: a function from the
  level to the identifier stored there. Only the levels below \<open>maxHeight\<close> are ever
  read or written; the zero value of the array is \<open>\<lambda>_. 0\<close>.
\<close>

type_synonym skipPointer = "nat \<Rightarrow> nodeId"

definition maxCount :: int where
  "maxCount = 4294967295 - 1"

definition maxHeight :: nat where
  "maxHeight = 5"

definition highest :: nat where
  "highest = maxHeight - 1"

definition nullID :: nodeId where
  "nullID = 0"

record skipNode =
  id' :: nodeId
  key :: bytes
  val :: bytes
  height :: nat
  "next" :: skipPointer

type_synonym ValueCmp = "bytes \<Rightarrow> bytes \<Rightarrow> int"

text \<open>
  \<open>rand.Source\<close> belongs to Go's standard library. A source is modelled by the
  sequence of values its successive \<open>Int63\<close> calls return (as 64-bit words, which is
  what \<open>uint64(roll)\<close> reads); a call returns the first value and leaves the rest.
\<close>

type_synonym source = "nat \<Rightarrow> 64 word"

definition Int63 :: "source \<Rightarrow> 64 word \<times> source" where
  "Int63 r = (r 0, \<lambda>n. r (Suc n))"

record List =
  head :: skipPointer
  nodes :: "skipNode list"
  cmp :: ValueCmp
  src :: source

datatype error = KeyNil | NoCapacity | IndexOutOfRange

text \<open>The outcome of a mutating call: it returned, or it panicked, in the state given.\<close>

datatype outcome = Done List | Panic error List

section \<open>Construction and queries\<close>

definition zeroPointer :: skipPointer where
  "zeroPointer = (\<lambda>_. 0)"

definition zeroNode :: skipNode where
  "zeroNode = \<lparr>id' = 0, key = None, val = None, height = 0, next = zeroPointer\<rparr>"

text \<open>
  \<open>NewSkipList\<close>: \<open>NewSource\<close> stands for \<open>rand.NewSource\<close> of the standard library,
  taken as a parameter; the code calls it with the seed 0.
\<close>

definition NewSkipList :: "(int \<Rightarrow> source) \<Rightarrow> ValueCmp \<Rightarrow> List" where
  "NewSkipList NewSource c =
     \<lparr>head = zeroPointer,
      nodes = [\<lparr>id' = nullID, key = None, val = None, height = maxHeight, next = zeroPointer\<rparr>],
      cmp = c,
      src = NewSource 0\<rparr>"

definition Count :: "List \<Rightarrow> int" where
  "Count l = int (length (nodes l)) - 1"

definition Full :: "List \<Rightarrow> bool" where
  "Full l = (Count l \<ge> maxCount)"

definition getNode :: "List \<Rightarrow> nodeId \<Rightarrow> error + skipNode" where
  "getNode l i = (if unat i < length (nodes l) then Inr (nodes l ! unat i) else Inl IndexOutOfRange)"

definition updateNode :: "List \<Rightarrow> skipNode \<Rightarrow> error + List" where
  "updateNode l n =
     (if unat (id' n) < length (nodes l)
      then Inr (l\<lparr>nodes := (nodes l)[unat (id' n) := n]\<rparr>)
      else Inl IndexOutOfRange)"

definition compareKeys :: "List \<Rightarrow> bytes \<Rightarrow> bytes \<Rightarrow> int" where
  "compareKeys l left right = (if right = None then - 1 else cmp l left right)"

definition compare :: "List \<Rightarrow> skipNode \<Rightarrow> skipNode \<Rightarrow> int" where
  "compare l left right = compareKeys l (key left) (key right)"

definition firstNode :: "List \<Rightarrow> error + skipNode" where
  "firstNode l = getNode l (head l 0)"

section \<open>The height generator\<close>

definition pattern1 :: "64 word" where "pattern1 = push_bit 3 1 - 1"
definition pattern2 :: "64 word" where "pattern2 = push_bit 6 1 - 1"
definition pattern3 :: "64 word" where "pattern3 = push_bit 9 1 - 1"
definition pattern4 :: "64 word" where "pattern4 = push_bit 12 1 - 1"

definition patterns :: "64 word list" where
  "patterns = [pattern1, pattern2, pattern3, pattern4]"

text \<open>The \<open>range\<close> loop of \<open>rollHeight\<close> over the patterns still to test, with its \<open>break\<close>.\<close>

fun roll_loop :: "64 word \<Rightarrow> 64 word list \<Rightarrow> nat \<Rightarrow> nat" where
  "roll_loop roll [] h = h"
| "roll_loop roll (pat # pats) h =
     (if roll AND pat \<noteq> pat then h else roll_loop roll pats (h + 1))"

definition rollHeight :: "source \<Rightarrow> nat \<times> source" where
  "rollHeight r = (case Int63 r of (roll, r') \<Rightarrow> (roll_loop roll patterns 0, r'))"

definition makeNode :: "List \<Rightarrow> bytes \<Rightarrow> bytes \<Rightarrow> skipNode \<times> List" where
  "makeNode l k v =
     (case rollHeight (src l) of (h, r') \<Rightarrow>
        (let n = \<lparr>id' = of_nat (length (nodes l)), key = k, val = v, height = h,
                  next = zeroPointer\<rparr>
         in (n, l\<lparr>nodes := nodes l @ [n], src := r'\<rparr>)))"

section \<open>Get\<close>

text \<open>
  The inner loop of \<open>Get\<close> at level \<open>h\<close>. It can run forever on a chain with a cycle, so
  it is a partial function: \<open>None\<close> is not returning.
\<close>

partial_function (option) get_seek ::
  "List \<Rightarrow> bytes \<Rightarrow> nat \<Rightarrow> skipPointer \<Rightarrow> skipNode \<Rightarrow> (error + skipPointer \<times> skipNode) option"
where
  "get_seek l k h ptr cur =
     (if compareKeys l k (key cur) > 0
      then (case getNode l (next cur h) of
              Inl e \<Rightarrow> Some (Inl e)
            | Inr c \<Rightarrow> get_seek l k h (next cur) c)
      else Some (Inr (ptr, cur)))"

text \<open>
  The outer loop of \<open>Get\<close>: \<open>get_descend n\<close> runs the levels \<open>n - 1\<close> down to 0; at
  \<open>n = 0\<close> the loop is over and the last \<open>curr\<close> is what the comparison after it sees.
\<close>

fun get_descend ::
  "nat \<Rightarrow> List \<Rightarrow> bytes \<Rightarrow> skipPointer \<Rightarrow> skipNode \<Rightarrow> (error + skipNode) option"
where
  "get_descend 0 l k ptr cur = Some (Inr cur)"
| "get_descend (Suc h) l k ptr cur =
     (case getNode l (ptr h) of
        Inl e \<Rightarrow> Some (Inl e)
      | Inr c \<Rightarrow>
          (case get_seek l k h ptr c of
             None \<Rightarrow> None
           | Some (Inl e) \<Rightarrow> Some (Inl e)
           | Some (Inr (ptr', c')) \<Rightarrow> get_descend h l k ptr' c'))"

definition Get :: "List \<Rightarrow> bytes \<Rightarrow> (error + bytes \<times> bool) option" where
  "Get l k =
     (case get_descend (Suc highest) l k (head l) zeroNode of
        None \<Rightarrow> None
      | Some (Inl e) \<Rightarrow> Some (Inl e)
      | Some (Inr cur) \<Rightarrow>
          if compareKeys l k (key cur) = 0 then Some (Inr (val cur, True))
          else Some (Inr (None, False)))"

definition Has :: "List \<Rightarrow> bytes \<Rightarrow> (error + bool) option" where
  "Has l k =
     (case Get l k of
        None \<Rightarrow> None
      | Some (Inl e) \<Rightarrow> Some (Inl e)
      | Some (Inr (_, ok)) \<Rightarrow> Some (Inr ok))"

section \<open>Put\<close>

text \<open>The inner loop of the descent of \<open>Put\<close> at level \<open>h\<close>, on \<open>prevNd\<close>, \<open>next\<close>, \<open>currNd\<close>.\<close>

partial_function (option) put_seek ::
  "List \<Rightarrow> bytes \<Rightarrow> nat \<Rightarrow> skipNode \<Rightarrow> skipPointer \<Rightarrow> skipNode \<Rightarrow>
   (error + skipNode \<times> skipPointer \<times> skipNode) option"
where
  "put_seek l k h prevNd nxt currNd =
     (if compareKeys l k (key currNd) > 0
      then (case getNode l (next currNd h) of
              Inl e \<Rightarrow> Some (Inl e)
            | Inr c \<Rightarrow> put_seek l k h currNd (next currNd) c)
      else Some (Inr (prevNd, nxt, currNd)))"

text \<open>
  What the descent of \<open>Put\<close> ends with: the in-place update was made and \<open>Put\<close>
  returned, or the loop ran through all levels and left the breadcrumbs.
\<close>

datatype descent = Updated List | Crumbs skipPointer

fun put_descend ::
  "nat \<Rightarrow> List \<Rightarrow> bytes \<Rightarrow> bytes \<Rightarrow> skipNode \<Rightarrow> skipPointer \<Rightarrow> skipPointer \<Rightarrow>
   (error + descent) option"
where
  "put_descend 0 l k v prevNd nxt breadcrumbs = Some (Inr (Crumbs breadcrumbs))"
| "put_descend (Suc h) l k v prevNd nxt breadcrumbs =
     (case getNode l (nxt h) of
        Inl e \<Rightarrow> Some (Inl e)
      | Inr c \<Rightarrow>
          (case put_seek l k h prevNd nxt c of
             None \<Rightarrow> None
           | Some (Inl e) \<Rightarrow> Some (Inl e)
           | Some (Inr (prevNd', nxt', currNd)) \<Rightarrow>
               if compareKeys l k (key currNd) = 0
               then (case updateNode l (currNd\<lparr>val := v\<rparr>) of
                       Inl e \<Rightarrow> Some (Inl e)
                     | Inr l' \<Rightarrow> Some (Inr (Updated l')))
               else put_descend h l k v prevNd' nxt' (breadcrumbs(h := id' prevNd'))))"

text \<open>
  The second loop of \<open>Put\<close>, from level \<open>h\<close> up to the height of \<open>insert\<close>. It returns
  \<open>insert\<close> with its links set and the list, or the panic and the list as it then is.
\<close>

function put_link ::
  "nat \<Rightarrow> skipPointer \<Rightarrow> skipNode \<Rightarrow> List \<Rightarrow> (error + skipNode) \<times> List"
where
  "put_link h breadcrumbs ins l =
     (if h \<le> height ins
      then (case getNode l (head l h) of
              Inl e \<Rightarrow> (Inl e, l)
            | Inr headNd \<Rightarrow>
                if compare l ins headNd < 0
                then put_link (h + 1) breadcrumbs
                       (ins\<lparr>next := (next ins)(h := id' headNd)\<rparr>)
                       (l\<lparr>head := (head l)(h := id' ins)\<rparr>)
                else (case getNode l (breadcrumbs h) of
                        Inl e \<Rightarrow> (Inl e, l)
                      | Inr prev \<Rightarrow>
                          (case updateNode l (prev\<lparr>next := (next prev)(h := id' ins)\<rparr>) of
                             Inl e \<Rightarrow> (Inl e, l)
                           | Inr l' \<Rightarrow>
                               put_link (h + 1) breadcrumbs
                                 (ins\<lparr>next := (next ins)(h := next prev h)\<rparr>) l')))
      else (Inr ins, l))"
  by pat_completeness auto
termination
  by (relation "measure (\<lambda>(h, b, ins, l). Suc (height ins) - h)") auto

definition Put :: "List \<Rightarrow> bytes \<Rightarrow> bytes \<Rightarrow> outcome option" where
  "Put l k v =
     (if k = None then Some (Panic KeyNil l)
      else if Full l then Some (Panic NoCapacity l)
      else (case put_descend (Suc highest) l k v zeroNode (head l) zeroPointer of
              None \<Rightarrow> None
            | Some (Inl e) \<Rightarrow> Some (Panic e l)
            | Some (Inr (Updated l')) \<Rightarrow> Some (Done l')
            | Some (Inr (Crumbs breadcrumbs)) \<Rightarrow>
                (case makeNode l k v of (ins, l1) \<Rightarrow>
                   (case put_link 0 breadcrumbs ins l1 of
                      (Inl e, l2) \<Rightarrow> Some (Panic e l2)
                    | (Inr ins', l2) \<Rightarrow>
                        (case updateNode l2 ins' of
                           Inl e \<Rightarrow> Some (Panic e l2)
                         | Inr l3 \<Rightarrow> Some (Done l3))))))"

section \<open>Iteration\<close>

record ListIter =
  curr :: skipNode
  list :: List

definition Iter :: "List \<Rightarrow> error + ListIter" where
  "Iter l = (case firstNode l of Inl e \<Rightarrow> Inl e | Inr n \<Rightarrow> Inr \<lparr>curr = n, list = l\<rparr>)"

definition Next :: "ListIter \<Rightarrow> error + (bytes \<times> bytes) \<times> ListIter" where
  "Next it =
     (case getNode (list it) (next (curr it) 0) of
        Inl e \<Rightarrow> Inl e
      | Inr n \<Rightarrow> Inr ((key (curr it), val (curr it)), it\<lparr>curr := n\<rparr>))"

text \<open>
  The loop of \<open>IterAll\<close>. The callback is the caller's; the model returns the pairs it
  is called on, in the order of the calls.
\<close>

partial_function (option) iterall_loop ::
  "ListIter \<Rightarrow> bytes \<Rightarrow> bytes \<Rightarrow> (bytes \<times> bytes) list \<Rightarrow> (error + (bytes \<times> bytes) list) option"
where
  "iterall_loop it k v seen =
     (if k \<noteq> None
      then (case Next it of
              Inl e \<Rightarrow> Some (Inl e)
            | Inr ((k', v'), it') \<Rightarrow> iterall_loop it' k' v' (seen @ [(k, v)]))
      else Some (Inr seen))"

definition IterAll :: "List \<Rightarrow> (error + (bytes \<times> bytes) list) option" where
  "IterAll l =
     (case Iter l of
        Inl e \<Rightarrow> Some (Inl e)
      | Inr it \<Rightarrow>
          (case Next it of
             Inl e \<Rightarrow> Some (Inl e)
           | Inr ((k, v), it') \<Rightarrow> iterall_loop it' k v []))"

section \<open>Comparators, runs and the reference semantics\<close>

text \<open>
  The comparator of the spec's scenarios: byte-lexicographic order, as \<open>bytes.Compare\<close>
  of the standard library computes it (a nil slice compares as the empty one).
\<close>

fun lexCompare :: "8 word list \<Rightarrow> 8 word list \<Rightarrow> int" where
  "lexCompare [] [] = 0"
| "lexCompare [] (y # ys) = - 1"
| "lexCompare (x # xs) [] = 1"
| "lexCompare (x # xs) (y # ys) =
     (if x < y then - 1 else if y < x then 1 else lexCompare xs ys)"

definition bytesCompare :: ValueCmp where
  "bytesCompare a b =
     lexCompare (case a of None \<Rightarrow> [] | Some xs \<Rightarrow> xs) (case b of None \<Rightarrow> [] | Some ys \<Rightarrow> ys)"

text \<open>A random source whose every draw is 0, whatever the seed: all heights are 0.\<close>

definition zeroSource :: "int \<Rightarrow> source" where
  "zeroSource seed = (\<lambda>n. 0)"

text \<open>The list an outcome leaves behind.\<close>

fun state_of :: "outcome \<Rightarrow> List" where
  "state_of (Done l) = l"
| "state_of (Panic e l) = l"

text \<open>
  A sequence of \<open>Put\<close> calls, in order. A panic ends the run (it is fatal), and a call
  that does not return leaves the run without a result.
\<close>

fun run_puts :: "List \<Rightarrow> (bytes \<times> bytes) list \<Rightarrow> outcome option" where
  "run_puts l [] = Some (Done l)"
| "run_puts l ((k, v) # ops) =
     (case Put l k v of
        None \<Rightarrow> None
      | Some (Panic e l') \<Rightarrow> Some (Panic e l')
      | Some (Done l') \<Rightarrow> run_puts l' ops)"

text \<open>
  What the spec asks of a comparator: the sign of \<open>c a b\<close> orders the keys totally
  (reflexive, antisymmetric in sign, transitive).
\<close>

definition total_order :: "ValueCmp \<Rightarrow> bool" where
  "total_order c \<longleftrightarrow>
     (\<forall>a. c a a = 0) \<and>
     (\<forall>a b. (c a b < 0) = (0 < c b a)) \<and>
     (\<forall>a b d. c a b \<le> 0 \<longrightarrow> c b d \<le> 0 \<longrightarrow> c a d \<le> 0)"

section \<open>The invariant of the list\<close>

text \<open>
  The levels are described pointwise. Position 0 stands for the head of a level;
  \<open>beyond c K p i\<close> says that node \<open>i\<close> lies after position \<open>p\<close> in key order.
\<close>

definition beyond :: "ValueCmp \<Rightarrow> (nat \<Rightarrow> bytes) \<Rightarrow> nat \<Rightarrow> nat \<Rightarrow> bool" where
  "beyond c K p i \<longleftrightarrow> p = 0 \<or> c (K p) (K i) < 0"

text \<open>
  \<open>succ_at c M K p j\<close>: among the nodes \<open>M\<close> of a level, \<open>j\<close> is the first one after
  position \<open>p\<close>, or 0 (the sentinel) when there is none.
\<close>

definition succ_at :: "ValueCmp \<Rightarrow> nat set \<Rightarrow> (nat \<Rightarrow> bytes) \<Rightarrow> nat \<Rightarrow> nat \<Rightarrow> bool" where
  "succ_at c M K p j \<longleftrightarrow>
     (if j = 0 then (\<forall>i\<in>M. \<not> beyond c K p i)
      else j \<in> M \<and> beyond c K p j \<and> (\<forall>i\<in>M. beyond c K p i \<longrightarrow> c (K j) (K i) \<le> 0))"

text \<open>No two nodes of \<open>M\<close> have keys that the comparator holds equal.\<close>

definition distinct_keys :: "ValueCmp \<Rightarrow> nat set \<Rightarrow> (nat \<Rightarrow> bytes) \<Rightarrow> bool" where
  "distinct_keys c M K \<longleftrightarrow> (\<forall>i\<in>M. \<forall>j\<in>M. c (K i) (K j) = 0 \<longrightarrow> i = j)"

text \<open>A level is in order when every link leads to the successor in key order.\<close>

definition level_ok :: "ValueCmp \<Rightarrow> nat set \<Rightarrow> (nat \<Rightarrow> bytes) \<Rightarrow> (nat \<Rightarrow> nat) \<Rightarrow> bool" where
  "level_ok c M K nx \<longleftrightarrow> 0 \<notin> M \<and> (\<forall>p\<in>insert 0 M. succ_at c M K p (nx p))"

text \<open>
  A breadcrumb \<open>p\<close> for the key \<open>k\<close>: the last position of the level before \<open>k\<close>.
\<close>

definition crumb_ok :: "ValueCmp \<Rightarrow> nat set \<Rightarrow> (nat \<Rightarrow> bytes) \<Rightarrow> bytes \<Rightarrow> nat \<Rightarrow> bool" where
  "crumb_ok c M K k p \<longleftrightarrow>
     (p = 0 \<or> (p \<in> M \<and> c (K p) k < 0)) \<and> (\<forall>i\<in>M. beyond c K p i \<longrightarrow> c k (K i) < 0)"

text \<open>The sentinel that \<open>NewSkipList\<close> stores at index 0.\<close>

definition sentinel :: skipNode where
  "sentinel = \<lparr>id' = nullID, key = None, val = None, height = maxHeight, next = zeroPointer\<rparr>"

text \<open>The key of the node at an index of the arena.\<close>

definition keyAt :: "List \<Rightarrow> nat \<Rightarrow> bytes" where
  "keyAt l i = key (nodes l ! i)"

text \<open>
  The link of level \<open>h\<close> that leaves position \<open>p\<close>, as an index: the head of the level
  for position 0, the \<open>next[h]\<close> of the node otherwise.
\<close>

definition link :: "List \<Rightarrow> nat \<Rightarrow> nat \<Rightarrow> nat" where
  "link l h p = (if p = 0 then unat (head l h) else unat (next (nodes l ! p) h))"

text \<open>
  The nodes of level \<open>h\<close> among the first \<open>n\<close> of the arena: the live nodes whose height
  is at least \<open>h\<close>.
\<close>

definition members :: "List \<Rightarrow> nat \<Rightarrow> nat \<Rightarrow> nat set" where
  "members l n h = {i. 0 < i \<and> i < n \<and> h \<le> height (nodes l ! i)}"

text \<open>
  What holds of the arena whatever the links are: the sentinel is in place, every node
  is stored at its own identifier, live nodes have a key and a height below \<open>maxHeight\<close>,
  every link is an index of the arena, and no two live nodes have equal keys.
\<close>

definition shape :: "List \<Rightarrow> bool" where
  "shape l \<longleftrightarrow>
     0 < length (nodes l) \<and> int (length (nodes l)) - 1 \<le> maxCount \<and>
     nodes l ! 0 = sentinel \<and>
     (\<forall>i<length (nodes l). unat (id' (nodes l ! i)) = i) \<and>
     (\<forall>i<length (nodes l). 0 < i \<longrightarrow> key (nodes l ! i) \<noteq> None \<and> height (nodes l ! i) < maxHeight) \<and>
     (\<forall>i<length (nodes l). \<forall>h<maxHeight. unat (next (nodes l ! i) h) < length (nodes l)) \<and>
     (\<forall>h<maxHeight. unat (head l h) < length (nodes l)) \<and>
     distinct_keys (cmp l) (members l (length (nodes l)) 0) (keyAt l)"

text \<open>The invariant: the shape, and every level in order.\<close>

definition wellformed :: "List \<Rightarrow> bool" where
  "wellformed l \<longleftrightarrow>
     shape l \<and>
     (\<forall>h<maxHeight. level_ok (cmp l) (members l (length (nodes l)) h) (keyAt l) (link l h))"

text \<open>
  Where the descent for the key \<open>k\<close> stands at level \<open>h\<close>: at the head, or on a node of
  the level whose key is below \<open>k\<close>; \<open>prevNd\<close> and \<open>nxt\<close> are the variables of the loop.
\<close>

definition pos_ok :: "List \<Rightarrow> nat \<Rightarrow> bytes \<Rightarrow> nat \<Rightarrow> skipNode \<Rightarrow> skipPointer \<Rightarrow> bool" where
  "pos_ok l h k p prevNd nxt \<longleftrightarrow>
     (p = 0 \<or> (p \<in> members l (length (nodes l)) h \<and> cmp l (keyAt l p) k < 0)) \<and>
     unat (id' prevNd) = p \<and>
     nxt = (if p = 0 then head l else next (nodes l ! p))"

text \<open>The list with the node \<open>n\<close> written at index \<open>i\<close> of the arena.\<close>

definition withNode :: "List \<Rightarrow> nat \<Rightarrow> skipNode \<Rightarrow> List" where
  "withNode l i n = l\<lparr>nodes := (nodes l)[i := n]\<rparr>"

text \<open>Level \<open>j\<close> is in order, counting the first \<open>n\<close> nodes of the arena only.\<close>

definition lvl :: "List \<Rightarrow> nat \<Rightarrow> nat \<Rightarrow> bool" where
  "lvl V n j = level_ok (cmp V) (members V n j) (keyAt V) (link V j)"

text \<open>
  The invariant of the second loop of \<open>Put\<close> before level \<open>h\<close>, stated of the list as it
  will be once \<open>insert\<close> is written back at its index \<open>n0\<close>: the levels below \<open>h\<close> are in
  order with the new node, the levels from \<open>h\<close> on are in order without it, and their
  breadcrumbs still hold.
\<close>

definition link_inv :: "nat \<Rightarrow> bytes \<Rightarrow> skipPointer \<Rightarrow> nat \<Rightarrow> skipNode \<Rightarrow> List \<Rightarrow> bool" where
  "link_inv n0 k bc h ins l \<longleftrightarrow>
     length (nodes l) = Suc n0 \<and> 0 < n0 \<and> key ins = k \<and>
     shape (withNode l n0 ins) \<and>
     (\<forall>j<maxHeight. j < h \<longrightarrow> lvl (withNode l n0 ins) (Suc n0) j) \<and>
     (\<forall>j<maxHeight. h \<le> j \<longrightarrow>
        lvl (withNode l n0 ins) n0 j \<and>
        crumb_ok (cmp l) (members (withNode l n0 ins) n0 j) (keyAt (withNode l n0 ins)) k
          (unat (bc j)))"

text \<open>Two lists that differ in their links at most.\<close>

definition same_data :: "List \<Rightarrow> List \<Rightarrow> bool" where
  "same_data A B \<longleftrightarrow>
     length (nodes A) = length (nodes B) \<and> cmp A = cmp B \<and> src A = src B \<and>
     (\<forall>i<length (nodes B).
        id' (nodes A ! i) = id' (nodes B ! i) \<and> key (nodes A ! i) = key (nodes B ! i) \<and>
        val (nodes A ! i) = val (nodes B ! i) \<and> height (nodes A ! i) = height (nodes B ! i))"

text \<open>The in-place update of \<open>Put\<close>: the value of the node at index \<open>j\<close> replaced.\<close>

definition put_update :: "List \<Rightarrow> nat \<Rightarrow> bytes \<Rightarrow> List" where
  "put_update l j v = l\<lparr>nodes := (nodes l)[j := (nodes l ! j)\<lparr>val := v\<rparr>]\<rparr>"

text \<open>The live node at index \<open>j\<close> has a key that the comparator holds equal to \<open>k\<close>.\<close>

definition stored_at :: "List \<Rightarrow> bytes \<Rightarrow> nat \<Rightarrow> bool" where
  "stored_at l k j \<longleftrightarrow> 0 < j \<and> j < length (nodes l) \<and> cmp l k (keyAt l j) = 0"

text \<open>
  What an inserting \<open>Put\<close> does to the data of the arena: one node more, with the key, the
  value and the height rolled from the source, and the other nodes as they were.
\<close>

definition put_insert :: "List \<Rightarrow> bytes \<Rightarrow> bytes \<Rightarrow> List \<Rightarrow> bool" where
  "put_insert l k v l' \<longleftrightarrow>
     length (nodes l') = Suc (length (nodes l)) \<and>
     src l' = snd (rollHeight (src l)) \<and>
     (\<forall>i<length (nodes l).
        id' (nodes l' ! i) = id' (nodes l ! i) \<and> key (nodes l' ! i) = key (nodes l ! i) \<and>
        val (nodes l' ! i) = val (nodes l ! i) \<and> height (nodes l' ! i) = height (nodes l ! i)) \<and>
     key (nodes l' ! length (nodes l)) = k \<and> val (nodes l' ! length (nodes l)) = v \<and>
     height (nodes l' ! length (nodes l)) = fst (rollHeight (src l))"

text \<open>The pair that the iterator yields for the node at an index of the arena.\<close>

definition kvAt :: "List \<Rightarrow> nat \<Rightarrow> bytes \<times> bytes" where
  "kvAt l i = (key (nodes l ! i), val (nodes l ! i))"

text \<open>\<open>n\<close> further calls of \<open>Next\<close>, whatever they yield.\<close>

fun next_n :: "nat \<Rightarrow> ListIter \<Rightarrow> error + ListIter" where
  "next_n 0 it = Inr it"
| "next_n (Suc n) it = (case Next it of Inl e \<Rightarrow> Inl e | Inr (kv, it') \<Rightarrow> next_n n it')"

text \<open>
  The reference semantics of a run: the value of the last \<open>Put\<close> of the run whose key
  the comparator holds equal to \<open>k\<close>, if there is one.
\<close>

fun last_put :: "ValueCmp \<Rightarrow> (bytes \<times> bytes) list \<Rightarrow> bytes \<Rightarrow> bytes option" where
  "last_put c [] k = None"
| "last_put c ((k', v') # ops) k =
     (case last_put c ops k of
        Some v \<Rightarrow> Some v
      | None \<Rightarrow> if c k k' = 0 then Some v' else None)"

text \<open>The list holds what the run has put: every key of the run, with its last value.\<close>

definition contents_ok :: "List \<Rightarrow> (bytes \<times> bytes) list \<Rightarrow> bool" where
  "contents_ok l ops \<longleftrightarrow>
     (\<forall>k. case last_put (cmp l) ops k of
            None \<Rightarrow> (\<forall>j. \<not> stored_at l k j)
          | Some v \<Rightarrow> (\<exists>j. stored_at l k j \<and> val (nodes l ! j) = v))"

text \<open>
  The heights of the nodes are those that \<open>rollHeight\<close> makes of the successive draws of
  the source \<open>r\<close>, and the source of the list has advanced by one draw per node.
\<close>

definition heights_ok :: "source \<Rightarrow> List \<Rightarrow> bool" where
  "heights_ok r l \<longleftrightarrow>
     (\<forall>i. 0 < i \<and> i < length (nodes l) \<longrightarrow>
        height (nodes l ! i) = fst (rollHeight (\<lambda>m. r (m + (i - 1))))) \<and>
     src l = (\<lambda>m. r (m + (length (nodes l) - 1)))"

text \<open>
  A run that fills the list: the keys are runs of the byte 1, each shorter than the one
  before, so that every new node becomes the head of level 0; the value is always "1".
  \<open>desc_list n\<close> is the list after the first \<open>n\<close> of these calls.
\<close>

definition desc_key :: "nat \<Rightarrow> bytes" where
  "desc_key i = Some (replicate (4294967296 - i) 1)"

definition desc_node :: "nat \<Rightarrow> skipNode" where
  "desc_node i =
     \<lparr>id' = of_nat i, key = desc_key i, val = Some [49], height = 0,
      next = zeroPointer(0 := of_nat (i - 1))\<rparr>"

definition desc_list :: "nat \<Rightarrow> List" where
  "desc_list n =
     \<lparr>head = zeroPointer(0 := of_nat n),
      nodes = sentinel #
              map desc_node [1..<Suc n],
      cmp = bytesCompare, src = zeroSource 0\<rparr>"

definition desc_ops :: "nat \<Rightarrow> (bytes \<times> bytes) list" where
  "desc_ops n = map (\<lambda>i. (desc_key i, Some [49])) [1..<Suc n]"

text \<open>The list after \<open>Put\<close> of the empty, non-nil key on a fresh list.\<close>

definition one_empty_key :: List where
  "one_empty_key =
     \<lparr>head = zeroPointer(0 := 1),
      nodes = [\<lparr>id' = 0, key = None, val = None, height = 5, next = zeroPointer\<rparr>,
               \<lparr>id' = 1, key = Some [], val = Some [1], height = 0, next = zeroPointer\<rparr>],
      cmp = bytesCompare, src = zeroSource 0\<rparr>"

text \<open>A list whose arena holds the sentinel and \<open>maxCount\<close> further nodes.\<close>

definition full_list :: List where
  "full_list =
     \<lparr>head = zeroPointer, nodes = replicate 4294967295 zeroNode,
      cmp = bytesCompare, src = zeroSource 0\<rparr>"

text \<open>
  The scenario of the spec: the keys "b", "a", "c" with the values "2", "1", "3", put
  in this order on a new list, and the list that results.
\<close>

definition abc_ops :: "(bytes \<times> bytes) list" where
  "abc_ops = [(Some [98], Some [50]), (Some [97], Some [49]), (Some [99], Some [51])]"

definition abc_list :: List where
  "abc_list =
     \<lparr>head = zeroPointer(0 := 2),
      nodes = [\<lparr>id' = 0, key = None, val = None, height = 5, next = zeroPointer\<rparr>,
               \<lparr>id' = 1, key = Some [98], val = Some [50], height = 0, next = zeroPointer(0 := 3)\<rparr>,
               \<lparr>id' = 2, key = Some [97], val = Some [49], height = 0, next = zeroPointer(0 := 1)\<rparr>,
               \<lparr>id' = 3, key = Some [99], val = Some [51], height = 0, next = zeroPointer\<rparr>],
      cmp = bytesCompare, src = zeroSource 0\<rparr>"

text \<open>The scenario of the spec with the key "x": put with the value "1", then with "2".\<close>

definition x_list :: "bytes \<Rightarrow> List" where
  "x_list v =
     \<lparr>head = zeroPointer(0 := 1),
      nodes = [\<lparr>id' = 0, key = None, val = None, height = 5, next = zeroPointer\<rparr>,
               \<lparr>id' = 1, key = Some [120], val = v, height = 0, next = zeroPointer\<rparr>],
      cmp = bytesCompare, src = zeroSource 0\<rparr>"

section \<open>Total orders given by a comparator\<close>

lemma to_refl: "total_order c \<Longrightarrow> c a a = 0"
  by (simp add: total_order_def)

lemma to_flip: "total_order c \<Longrightarrow> (c a b < 0) = (0 < c b a)"
  by (simp add: total_order_def)

lemma to_sym: "total_order c \<Longrightarrow> (c a b = 0) = (c b a = 0)"
  using to_flip[of c a b] to_flip[of c b a] by auto

lemma to_le_trans: "total_order c \<Longrightarrow> c a b \<le> 0 \<Longrightarrow> c b d \<le> 0 \<Longrightarrow> c a d \<le> 0"
  unfolding total_order_def by blast

lemma to_lt_le_trans: "total_order c \<Longrightarrow> c a b < 0 \<Longrightarrow> c b d \<le> 0 \<Longrightarrow> c a d < 0"
proof (rule ccontr)
  assume t: "total_order c" and ab: "c a b < 0" and bd: "c b d \<le> 0" and n: "\<not> c a d < 0"
  from n have "0 \<le> c a d" by simp
  then have "c d a \<le> 0" using to_flip[OF t, of d a] to_sym[OF t, of a d] by auto
  with bd t have "c b a \<le> 0" by (blast intro: to_le_trans)
  with ab to_flip[OF t, of a b] show False by simp
qed

lemma to_le_lt_trans: "total_order c \<Longrightarrow> c a b \<le> 0 \<Longrightarrow> c b d < 0 \<Longrightarrow> c a d < 0"
proof (rule ccontr)
  assume t: "total_order c" and ab: "c a b \<le> 0" and bd: "c b d < 0" and n: "\<not> c a d < 0"
  from n have "0 \<le> c a d" by simp
  then have "c d a \<le> 0" using to_flip[OF t, of d a] to_sym[OF t, of a d] by auto
  with ab t have "c d b \<le> 0" by (blast intro: to_le_trans)
  with bd to_flip[OF t, of b d] show False by simp
qed

lemma to_lt_trans: "total_order c \<Longrightarrow> c a b < 0 \<Longrightarrow> c b d < 0 \<Longrightarrow> c a d < 0"
  by (rule to_lt_le_trans[where b = b]) auto

lemma to_eq_trans: "total_order c \<Longrightarrow> c a b = 0 \<Longrightarrow> c b d = 0 \<Longrightarrow> c a d = 0"
proof -
  assume t: "total_order c" and ab: "c a b = 0" and bd: "c b d = 0"
  have 1: "c a d \<le> 0" using to_le_trans[OF t, of a b d] ab bd by simp
  have "c d b = 0" "c b a = 0" using to_sym[OF t] ab bd by auto
  then have 2: "c d a \<le> 0" using to_le_trans[OF t, of d b a] by simp
  from 1 2 to_flip[OF t, of a d] show ?thesis by auto
qed

lemma to_not_lt: "total_order c \<Longrightarrow> (\<not> c a b < 0) = (c b a \<le> 0)"
  using to_flip[of c a b] to_flip[of c b a] to_sym[of c a b] by auto

lemma to_gt: "total_order c \<Longrightarrow> (0 < c a b) = (c b a < 0)"
  by (simp add: to_flip)

section \<open>Inserting a node into a level in order\<close>

text \<open>
  A new node whose key is below that of the first node of the level (or the level is
  empty) becomes the head and links to the old head.
\<close>

lemma ins_head:
  assumes t: "total_order c" and ok: "level_ok c M K nx" 
    and new: "new \<notin> M" "new \<noteq> 0" and fresh: "\<forall>i\<in>M. c (K new) (K i) \<noteq> 0"
    and hd: "nx 0 = 0 \<or> c (K new) (K (nx 0)) < 0"
  shows "level_ok c (insert new M) K (nx(0 := new, new := nx 0))"
proof -
  have z: "0 \<notin> M" using ok by (simp add: level_ok_def)
  have s0: "succ_at c M K 0 (nx 0)" using ok by (simp add: level_ok_def)
  have all_gt: "\<forall>i\<in>M. c (K new) (K i) < 0"
  proof
    fix i assume i: "i \<in> M"
    show "c (K new) (K i) < 0"
    proof (cases "nx 0 = 0")
      case True
      with s0 i show ?thesis by (auto simp: succ_at_def beyond_def)
    next
      case False
      with s0 i have "c (K (nx 0)) (K i) \<le> 0" by (auto simp: succ_at_def beyond_def)
      moreover from False hd have "c (K new) (K (nx 0)) < 0" by simp
      ultimately show ?thesis using to_lt_le_trans[OF t] by blast
    qed
  qed
  have nab: "\<And>i. i \<in> M \<Longrightarrow> \<not> beyond c K i new"
    using all_gt z to_flip[OF t] by (fastforce simp: beyond_def)
  have a: "succ_at c (insert new M) K 0 new"
    using new all_gt to_refl[OF t] by (auto simp: succ_at_def beyond_def)
  have b: "succ_at c (insert new M) K new (nx 0)"
  proof (cases "nx 0 = 0")
    case True
    with s0 have "M = {}" by (auto simp: succ_at_def beyond_def)
    with True new to_refl[OF t] show ?thesis by (auto simp: succ_at_def beyond_def)
  next
    case False
    with s0 have m: "nx 0 \<in> M" and le: "\<forall>i\<in>M. c (K (nx 0)) (K i) \<le> 0"
      by (auto simp: succ_at_def beyond_def)
    show ?thesis using False m le all_gt new to_refl[OF t] by (auto simp: succ_at_def beyond_def)
  qed
  have d: "succ_at c (insert new M) K p (nx p)" if p: "p \<in> M" for p
  proof -
    have sp: "succ_at c M K p (nx p)" using ok p by (simp add: level_ok_def)
    show ?thesis using sp nab[OF p] by (auto simp: succ_at_def)
  qed
  show ?thesis
    using z new a b d by (auto simp: level_ok_def)
qed

lemma crumb_fresh:
  assumes t: "total_order c" and cr: "crumb_ok c M K k p" and i: "i \<in> M"
  shows "c k (K i) \<noteq> 0"
proof (cases "beyond c K p i")
  case True
  with cr i show ?thesis by (auto simp: crumb_ok_def)
next
  case False
  then have p: "p \<noteq> 0" and le: "c (K i) (K p) \<le> 0"
    using to_not_lt[OF t, of "K p" "K i"] by (auto simp: beyond_def)
  from cr p have "c (K p) k < 0" by (auto simp: crumb_ok_def)
  with le have "c (K i) k < 0" using to_le_lt_trans[OF t] by blast
  then show ?thesis using to_sym[OF t, of k "K i"] by auto
qed

text \<open>
  Otherwise the breadcrumb is a node of the level, and the new node goes between it and
  its successor.
\<close>

lemma ins_splice:
  assumes t: "total_order c" and ok: "level_ok c M K nx" and dk: "distinct_keys c M K"
    and new: "new \<notin> M" "new \<noteq> 0" 
    and cr: "crumb_ok c M K (K new) p"
    and hd: "\<not> (nx 0 = 0 \<or> c (K new) (K (nx 0)) < 0)"
  shows "p \<in> M \<and> level_ok c (insert new M) K (nx(p := new, new := nx p))"
proof -
  have z: "0 \<notin> M" using ok by (simp add: level_ok_def)
  have s0: "succ_at c M K 0 (nx 0)" using ok by (simp add: level_ok_def)
  from hd have h0: "nx 0 \<noteq> 0" and h1: "\<not> c (K new) (K (nx 0)) < 0" by auto
  from s0 h0 have hm: "nx 0 \<in> M" and hmin: "\<forall>i\<in>M. c (K (nx 0)) (K i) \<le> 0"
    by (auto simp: succ_at_def beyond_def)
  have p0: "p \<noteq> 0"
  proof
    assume "p = 0"
    with cr hm have "c (K new) (K (nx 0)) < 0" by (auto simp: crumb_ok_def beyond_def)
    with h1 show False by simp
  qed
  with cr have pm: "p \<in> M" and plt: "c (K p) (K new) < 0" 
    and after: "\<forall>i\<in>M. beyond c K p i \<longrightarrow> c (K new) (K i) < 0"
    by (auto simp: crumb_ok_def)
  have pn: "p \<noteq> new" using pm new by auto
  have sp: "succ_at c M K p (nx p)" using ok pm by (simp add: level_ok_def)
  have a: "succ_at c (insert new M) K 0 (nx 0)"
  proof -
    have "c (K (nx 0)) (K new) \<le> 0" using h1 to_not_lt[OF t, of "K new" "K (nx 0)"] by simp
    with h0 hm hmin show ?thesis by (auto simp: succ_at_def beyond_def)
  qed
  have b: "succ_at c (insert new M) K p new"
    using new plt p0 after to_refl[OF t] by (auto simp: succ_at_def beyond_def)
  have ab_eq: "beyond c K new i = beyond c K p i" if i: "i \<in> M" for i
  proof
    assume "beyond c K new i"
    then have "c (K new) (K i) < 0" using new by (simp add: beyond_def)
    with plt show "beyond c K p i" using to_lt_trans[OF t] by (auto simp: beyond_def)
  next
    assume "beyond c K p i"
    with after i show "beyond c K new i" by (auto simp: beyond_def)
  qed
  have nn: "\<not> beyond c K new new" using new to_refl[OF t] by (simp add: beyond_def)
  have d: "succ_at c (insert new M) K new (nx p)"
  proof (cases "nx p = 0")
    case True
    with sp have "\<forall>i\<in>M. \<not> beyond c K p i" by (simp add: succ_at_def)
    with True nn ab_eq show ?thesis by (simp add: succ_at_def)
  next
    case False
    with sp have m: "nx p \<in> M" and ab: "beyond c K p (nx p)" 
      and mn: "\<forall>i\<in>M. beyond c K p i \<longrightarrow> c (K (nx p)) (K i) \<le> 0"
      by (auto simp: succ_at_def)
    show ?thesis using False m ab mn nn ab_eq by (simp add: succ_at_def)
  qed
  have e: "succ_at c (insert new M) K q (nx q)" if q: "q \<in> M" "q \<noteq> p" for q
  proof -
    have sq: "succ_at c M K q (nx q)" using ok q by (simp add: level_ok_def)
    have q0: "q \<noteq> 0" using q z by (cases q) auto
    show ?thesis
    proof (cases "c (K q) (K p) < 0")
      case True
      then have abp: "beyond c K q p" by (simp add: beyond_def)
      with sq pm have nz: "nx q \<noteq> 0" by (cases "nx q = 0") (auto simp: succ_at_def)
      with sq have m: "nx q \<in> M" and ab: "beyond c K q (nx q)" 
        and mn: "\<forall>i\<in>M. beyond c K q i \<longrightarrow> c (K (nx q)) (K i) \<le> 0"
        by (auto simp: succ_at_def)
      from mn pm abp have "c (K (nx q)) (K p) \<le> 0" by blast
      with plt have "c (K (nx q)) (K new) < 0" using to_le_lt_trans[OF t] by blast
      then have "c (K (nx q)) (K new) \<le> 0" by simp
      with nz m ab mn show ?thesis by (simp add: succ_at_def)
    next
      case False
      then have "c (K p) (K q) \<le> 0" using to_not_lt[OF t] by simp
      moreover have "c (K p) (K q) \<noteq> 0" using dk pm q by (auto simp: distinct_keys_def)
      ultimately have "beyond c K p q" by (simp add: beyond_def)
      with after q have "c (K new) (K q) < 0" by blast
      then have "\<not> beyond c K q new" using q0 to_flip[OF t, of "K new" "K q"] by (simp add: beyond_def)
      with sq show ?thesis by (auto simp: succ_at_def)
    qed
  qed
  have "level_ok c (insert new M) K (nx(p := new, new := nx p))"
    unfolding level_ok_def using z new p0 pn a b d e by auto
  with pm show ?thesis by simp
qed

declare put_link.simps [simp del]

declare put_descend.simps(2) [simp del]

declare get_descend.simps(2) [simp del]

section \<open>The descent of \<open>Put\<close>\<close>

lemma finite_members [simp]: "finite (members l n h)"
  by (simp add: members_def)

lemma members_mono: "h' \<le> h \<Longrightarrow> members l n h \<subseteq> members l n h'"
  by (auto simp: members_def)

lemma level_okD:
  "level_ok c M K nx \<Longrightarrow> p = 0 \<or> p \<in> M \<Longrightarrow> succ_at c M K p (nx p)"
  by (auto simp: level_ok_def)

lemma succ_atD:
  "succ_at c M K p j \<Longrightarrow> j \<noteq> 0 \<Longrightarrow>
   j \<in> M \<and> beyond c K p j \<and> (\<forall>i\<in>M. beyond c K p i \<longrightarrow> c (K j) (K i) \<le> 0)"
  by (simp add: succ_at_def)

lemma succ_at0D:
  "succ_at c M K p 0 \<Longrightarrow> i \<in> M \<Longrightarrow> \<not> beyond c K p i"
  by (simp add: succ_at_def)

lemma seek_decr:
  assumes t: "total_order c" and f: "finite M" and ok: "level_ok c M K nx"
    and p: "p \<in> insert 0 M" and nz: "nx p \<noteq> 0"
  shows "card {i\<in>M. beyond c K (nx p) i} < card {i\<in>M. beyond c K p i}"
proof (rule psubset_card_mono)
  show "finite {i\<in>M. beyond c K p i}" using f by simp
  have sp: "succ_at c M K p (nx p)" using ok p by (auto intro: level_okD)
  with nz have m: "nx p \<in> M" and b: "beyond c K p (nx p)" by (auto dest: succ_atD)
  have "nx p \<notin> {i\<in>M. beyond c K (nx p) i}" using nz to_refl[OF t] by (simp add: beyond_def)
  moreover have "nx p \<in> {i\<in>M. beyond c K p i}" using m b by simp
  moreover have "{i\<in>M. beyond c K (nx p) i} \<subseteq> {i\<in>M. beyond c K p i}"
    using b nz to_lt_trans[OF t] by (auto simp: beyond_def)
  ultimately show "{i\<in>M. beyond c K (nx p) i} \<subset> {i\<in>M. beyond c K p i}" by blast
qed

lemma wf_link_bound:
  "wellformed l \<Longrightarrow> h < maxHeight \<Longrightarrow> p < length (nodes l) \<Longrightarrow> link l h p < length (nodes l)"
  by (auto simp: wellformed_def shape_def link_def)

lemma wf_link_member:
  "wellformed l \<Longrightarrow> h < maxHeight \<Longrightarrow> p \<in> insert 0 (members l (length (nodes l)) h) \<Longrightarrow>
   link l h p \<noteq> 0 \<Longrightarrow> link l h p \<in> members l (length (nodes l)) h"
proof -
  assume w: "wellformed l" and h: "h < maxHeight" 
    and p: "p \<in> insert 0 (members l (length (nodes l)) h)" and nz: "link l h p \<noteq> 0"
  from w h have "level_ok (cmp l) (members l (length (nodes l)) h) (keyAt l) (link l h)"
    by (simp add: wellformed_def)
  then have "succ_at (cmp l) (members l (length (nodes l)) h) (keyAt l) p (link l h p)"
    using p by (auto intro: level_okD)
  with nz show ?thesis by (auto dest: succ_atD)
qed

lemma wf_key_None: 
  "wellformed l \<Longrightarrow> i < length (nodes l) \<Longrightarrow> (keyAt l i = None) = (i = 0)"
  by (cases "i = 0") (auto simp: wellformed_def shape_def keyAt_def sentinel_def)

lemma compareKeys_at:
  "wellformed l \<Longrightarrow> i < length (nodes l) \<Longrightarrow>
   compareKeys l k (keyAt l i) = (if i = 0 then - 1 else cmp l k (keyAt l i))"
  by (simp add: compareKeys_def wf_key_None)

lemma put_seek_total:
  assumes w: "wellformed l" and t: "total_order (cmp l)" and h: "h < maxHeight"
  shows "pos_ok l h k p prevNd nxt \<Longrightarrow>
    \<exists>p' prevNd' nxt'.
      put_seek l k h prevNd nxt (nodes l ! link l h p) =
        Some (Inr (prevNd', nxt', nodes l ! link l h p')) \<and>
      pos_ok l h k p' prevNd' nxt' \<and>
      \<not> 0 < compareKeys l k (keyAt l (link l h p'))"
proof (induction "card {i \<in> members l (length (nodes l)) h. beyond (cmp l) (keyAt l) p i}"
    arbitrary: p prevNd nxt rule: less_induct)
  case less
  let ?M = "members l (length (nodes l)) h"
  let ?j = "link l h p"
  have ok: "level_ok (cmp l) ?M (keyAt l) (link l h)" using w h by (simp add: wellformed_def)
  have pin: "p \<in> insert 0 ?M" using less.prems by (auto simp: pos_ok_def)
  then have plen: "p < length (nodes l)" using w by (auto simp: members_def wellformed_def shape_def)
  have jlen: "?j < length (nodes l)" using wf_link_bound[OF w h plen] .
  show ?case
  proof (cases "0 < compareKeys l k (keyAt l ?j)")
    case False
    then have "put_seek l k h prevNd nxt (nodes l ! ?j) = Some (Inr (prevNd, nxt, nodes l ! ?j))"
      by (subst put_seek.simps) (simp add: keyAt_def)
    with False less.prems show ?thesis by blast
  next
    case True
    then have jnz: "?j \<noteq> 0" and gt: "0 < cmp l k (keyAt l ?j)"
      using compareKeys_at[OF w jlen, of k] by (auto split: if_splits)
    have jm: "?j \<in> ?M" using wf_link_member[OF w h pin jnz] .
    let ?prev = "nodes l ! ?j"
    have idj: "unat (id' ?prev) = ?j" using w jlen by (simp add: wellformed_def shape_def)
    have pos': "pos_ok l h k ?j ?prev (next ?prev)"
      using jm jnz gt idj to_flip[OF t, of "keyAt l ?j" k] by (simp add: pos_ok_def)
    have lk: "unat (next ?prev h) = link l h ?j" using jnz by (simp add: link_def)
    have jjlen: "link l h ?j < length (nodes l)" using wf_link_bound[OF w h jlen] .
    have dec: "card {i \<in> ?M. beyond (cmp l) (keyAt l) ?j i} < card {i \<in> ?M. beyond (cmp l) (keyAt l) p i}"
      using seek_decr[OF t _ ok pin jnz] by simp
    from less.hyps[OF dec pos'] obtain p' prevNd' nxt' where
      r: "put_seek l k h ?prev (next ?prev) (nodes l ! link l h ?j) =
            Some (Inr (prevNd', nxt', nodes l ! link l h p'))"
      and p': "pos_ok l h k p' prevNd' nxt'" 
      and e: "\<not> 0 < compareKeys l k (keyAt l (link l h p'))" by blast
    have "put_seek l k h prevNd nxt (nodes l ! ?j) = Some (Inr (prevNd', nxt', nodes l ! link l h p'))"
      using True r lk jjlen by (subst put_seek.simps) (simp add: keyAt_def getNode_def)
    with p' e show ?thesis by blast
  qed
qed

lemma crumb_from_succ:
  assumes t: "total_order c" and s: "succ_at c M K p j"
    and p: "p = 0 \<or> (p \<in> M \<and> c (K p) k < 0)"
    and j: "j = 0 \<or> c k (K j) < 0"
  shows "crumb_ok c M K k p"
proof -
  have "c k (K i) < 0" if i: "i \<in> M" and b: "beyond c K p i" for i
  proof (cases "j = 0")
    case True
    with s i b show ?thesis by (auto dest: succ_at0D)
  next
    case False
    with s i b have "c (K j) (K i) \<le> 0" by (auto dest: succ_atD)
    moreover from False j have "c k (K j) < 0" by simp
    ultimately show ?thesis using to_lt_le_trans[OF t] by blast
  qed
  with p show ?thesis by (auto simp: crumb_ok_def)
qed

lemma pos_ok_down: "pos_ok l (Suc m) k p prevNd nxt \<Longrightarrow> pos_ok l m k p prevNd nxt"
  using members_mono[of m "Suc m" l "length (nodes l)"] by (auto simp: pos_ok_def)

lemma pos_ok_link: "pos_ok l m k p prevNd nxt \<Longrightarrow> unat (nxt h) = link l h p"
  by (auto simp: pos_ok_def link_def)

lemma pos_ok_len: "wellformed l \<Longrightarrow> pos_ok l m k p prevNd nxt \<Longrightarrow> p < length (nodes l)"
  by (auto simp: pos_ok_def members_def wellformed_def shape_def)

lemma put_descend_total:
  assumes w: "wellformed l" and t: "total_order (cmp l)"
  shows "m \<le> maxHeight \<Longrightarrow> pos_ok l m k p prevNd nxt \<Longrightarrow>
     (\<forall>h<maxHeight. m \<le> h \<longrightarrow>
        crumb_ok (cmp l) (members l (length (nodes l)) h) (keyAt l) k (unat (bc h))) \<Longrightarrow>
     (\<exists>j. 0 < j \<and> j < length (nodes l) \<and> cmp l k (keyAt l j) = 0 \<and>
          put_descend m l k v prevNd nxt bc =
            Some (Inr (Updated (l\<lparr>nodes := (nodes l)[j := (nodes l ! j)\<lparr>val := v\<rparr>]\<rparr>)))) \<or>
     (\<exists>bc'. put_descend m l k v prevNd nxt bc = Some (Inr (Crumbs bc')) \<and>
          (\<forall>h<maxHeight.
             crumb_ok (cmp l) (members l (length (nodes l)) h) (keyAt l) k (unat (bc' h))))"
proof (induction m arbitrary: p prevNd nxt bc)
  case 0
  then show ?case by simp
next
  case (Suc m)
  let ?n = "length (nodes l)"
  let ?M = "members l ?n m"
  have m: "m < maxHeight" using Suc.prems by simp
  have pos: "pos_ok l m k p prevNd nxt" using Suc.prems pos_ok_down by blast
  have plen: "p < ?n" using pos_ok_len[OF w pos] .
  have lk: "unat (nxt m) = link l m p" using pos_ok_link[OF pos] .
  have jlen: "link l m p < ?n" using wf_link_bound[OF w m plen] .
  from put_seek_total[OF w t m pos] obtain p' prevNd' nxt' where
    r: "put_seek l k m prevNd nxt (nodes l ! link l m p) =
          Some (Inr (prevNd', nxt', nodes l ! link l m p'))"
    and pos': "pos_ok l m k p' prevNd' nxt'"
    and e: "\<not> 0 < compareKeys l k (keyAt l (link l m p'))" by blast
  let ?j = "link l m p'"
  have p'len: "p' < ?n" using pos_ok_len[OF w pos'] .
  have j'len: "?j < ?n" using wf_link_bound[OF w m p'len] .
  have ck: "compareKeys l k (keyAt l ?j) = (if ?j = 0 then - 1 else cmp l k (keyAt l ?j))"
    using compareKeys_at[OF w j'len] .
  have idj: "unat (id' (nodes l ! ?j)) = ?j" using w j'len by (simp add: wellformed_def shape_def)
  show ?case
  proof (cases "compareKeys l k (keyAt l ?j) = 0")
    case True
    then have jnz: "0 < ?j" and eq: "cmp l k (keyAt l ?j) = 0" using ck by (auto split: if_splits)
    have "put_descend (Suc m) l k v prevNd nxt bc =
            Some (Inr (Updated (l\<lparr>nodes := (nodes l)[?j := (nodes l ! ?j)\<lparr>val := v\<rparr>]\<rparr>)))"
      using True r lk jlen j'len idj by (simp add: put_descend.simps getNode_def updateNode_def keyAt_def)
    with jnz eq j'len show ?thesis by blast
  next
    case False
    with e ck have jc: "?j = 0 \<or> cmp l k (keyAt l ?j) < 0" by (auto split: if_splits)
    have ok: "level_ok (cmp l) ?M (keyAt l) (link l m)" using w m by (simp add: wellformed_def)
    have pin: "p' = 0 \<or> (p' \<in> ?M \<and> cmp l (keyAt l p') k < 0)" using pos' by (simp add: pos_ok_def)
    then have sa: "succ_at (cmp l) ?M (keyAt l) p' ?j" using level_okD[OF ok, of p'] by blast
    have cr: "crumb_ok (cmp l) ?M (keyAt l) k p'"
      using crumb_from_succ[OF t sa pin jc] .
    have idp: "unat (id' prevNd') = p'" using pos' by (simp add: pos_ok_def)
    have bc': "\<forall>h<maxHeight. m \<le> h \<longrightarrow>
        crumb_ok (cmp l) (members l ?n h) (keyAt l) k (unat ((bc(m := id' prevNd')) h))"
      using Suc.prems(3) cr idp by (auto simp: le_Suc_eq)
    have eq: "put_descend (Suc m) l k v prevNd nxt bc =
                put_descend m l k v prevNd' nxt' (bc(m := id' prevNd'))"
      using False r lk jlen by (simp add: put_descend.simps getNode_def keyAt_def)
    have "m \<le> maxHeight" using m by simp
    from Suc.IH[OF this pos' bc'] show ?thesis unfolding eq .
  qed
qed

section \<open>The second loop of \<open>Put\<close>\<close>

lemma withNode_simps [simp]:
  "nodes (withNode l i n) = (nodes l)[i := n]"
  "head (withNode l i n) = head l"
  "cmp (withNode l i n) = cmp l"
  "src (withNode l i n) = src l"
  by (simp_all add: withNode_def)

lemma level_ok_cong:
  assumes "M = M'" "\<And>i. i \<in> M \<Longrightarrow> K i = K' i" "\<And>p. p = 0 \<or> p \<in> M \<Longrightarrow> nx p = nx' p"
  shows "level_ok c M K nx = level_ok c M' K' nx'"
proof -
  have b: "beyond c K p i = beyond c K' p i" if "p = 0 \<or> p \<in> M" "i \<in> M" for p i
    using that assms(2) by (auto simp: beyond_def)
  have s: "succ_at c M K p (nx p) = succ_at c M' K' p (nx' p)" if p: "p = 0 \<or> p \<in> M" for p
  proof (cases "nx p = 0")
    case True
    then show ?thesis using assms(1) assms(3)[OF p] b[OF p] by (simp add: succ_at_def)
  next
    case False
    show ?thesis
    proof (cases "nx p \<in> M")
      case True
      have "(\<forall>i\<in>M. beyond c K p i \<longrightarrow> c (K (nx p)) (K i) \<le> 0) =
            (\<forall>i\<in>M. beyond c K' p i \<longrightarrow> c (K' (nx p)) (K' i) \<le> 0)"
        using b[OF p] assms(2) True by auto
      then show ?thesis
        using False True assms(1) assms(3)[OF p] b[OF p True] by (simp add: succ_at_def)
    next
      case nm: False
      then show ?thesis using False assms(1) assms(3)[OF p] by (simp add: succ_at_def)
    qed
  qed
  show ?thesis unfolding level_ok_def using assms(1) s by auto
qed

lemma crumb_ok_cong:
  assumes "M = M'" "\<And>i. i \<in> M \<Longrightarrow> K i = K' i"
  shows "crumb_ok c M K k p = crumb_ok c M' K' k p"
proof -
  have b: "beyond c K p i = beyond c K' p i" if "p = 0 \<or> p \<in> M" "i \<in> M" for i
    using that assms(2) by (auto simp: beyond_def)
  show ?thesis
    unfolding crumb_ok_def using assms b by (cases "p = 0 \<or> p \<in> M") auto
qed

lemma members_Suc:
  "members V (Suc n) j = (if 0 < n \<and> j \<le> height (nodes V ! n) then insert n (members V n j) else members V n j)"
  by (auto simp: members_def less_Suc_eq)

lemma link_inv_facts:
  assumes inv: "link_inv n0 k bc h ins l"
  shows "length (nodes l) = Suc n0" "0 < n0" "key ins = k" "shape (withNode l n0 ins)"
    "unat (id' ins) = n0" "height ins < maxHeight" "keyAt (withNode l n0 ins) n0 = k"
proof -
  show l: "length (nodes l) = Suc n0" and z: "0 < n0" and k: "key ins = k" 
    and s: "shape (withNode l n0 ins)"
    using inv by (auto simp: link_inv_def)
  from s l have "unat (id' (nodes (withNode l n0 ins) ! n0)) = n0" 
    unfolding shape_def by (metis length_list_update lessI withNode_simps(1))
  then show "unat (id' ins) = n0" using l by simp
  from s l z have "height (nodes (withNode l n0 ins) ! n0) < maxHeight"
    unfolding shape_def by (metis length_list_update lessI withNode_simps(1))
  then show "height ins < maxHeight" using l by simp
  show "keyAt (withNode l n0 ins) n0 = k" using l k by (simp add: keyAt_def)
qed

lemma shape_frame:
  assumes s: "shape V" and len: "length (nodes V') = length (nodes V)" and c: "cmp V' = cmp V"
    and z: "nodes V' ! 0 = nodes V ! 0"
    and same: "\<And>i. i < length (nodes V) \<Longrightarrow>
        id' (nodes V' ! i) = id' (nodes V ! i) \<and> key (nodes V' ! i) = key (nodes V ! i) \<and>
        height (nodes V' ! i) = height (nodes V ! i)"
    and nb: "\<And>i h. i < length (nodes V) \<Longrightarrow> h < maxHeight \<Longrightarrow>
        unat (next (nodes V' ! i) h) < length (nodes V)"
    and hb: "\<And>h. h < maxHeight \<Longrightarrow> unat (head V' h) < length (nodes V)"
  shows "shape V'"
proof -
  have m: "members V' (length (nodes V)) 0 = members V (length (nodes V)) 0"
    using same by (auto simp: members_def)
  have dk: "distinct_keys (cmp V') (members V' (length (nodes V')) 0) (keyAt V')"
  proof -
    have "distinct_keys (cmp V) (members V (length (nodes V)) 0) (keyAt V)"
      using s by (simp add: shape_def)
    moreover have "keyAt V' i = keyAt V i" if "i \<in> members V (length (nodes V)) 0" for i
      using that same by (simp add: keyAt_def members_def)
    ultimately show ?thesis unfolding distinct_keys_def len c m by simp
  qed
  have A: "0 < length (nodes V')" "int (length (nodes V')) - 1 \<le> maxCount" "nodes V' ! 0 = sentinel"
    using s len z by (simp_all add: shape_def)
  have B: "\<forall>i<length (nodes V'). unat (id' (nodes V' ! i)) = i"
    using s len same by (simp add: shape_def)
  have C: "\<forall>i<length (nodes V'). 0 < i \<longrightarrow> key (nodes V' ! i) \<noteq> None \<and> height (nodes V' ! i) < maxHeight"
    using s len same by (simp add: shape_def)
  have D: "\<forall>i<length (nodes V'). \<forall>h<maxHeight. unat (next (nodes V' ! i) h) < length (nodes V')"
    using len nb by simp
  have E: "\<forall>h<maxHeight. unat (head V' h) < length (nodes V')"
    using len hb by simp
  show ?thesis unfolding shape_def using A B C D E dk by blast
qed

lemma shape_next_bound:
  "shape V \<Longrightarrow> i < length (nodes V) \<Longrightarrow> h < maxHeight \<Longrightarrow> unat (next (nodes V ! i) h) < length (nodes V)"
  by (simp add: shape_def)

lemma shape_head_bound:
  "shape V \<Longrightarrow> h < maxHeight \<Longrightarrow> unat (head V h) < length (nodes V)"
  by (simp add: shape_def)

lemma link_step_head:
  assumes t: "total_order (cmp l)" and inv: "link_inv n0 k bc h ins l" and hh: "h \<le> height ins"
    and c: "link (withNode l n0 ins) h 0 = 0 \<or>
            cmp l k (keyAt (withNode l n0 ins) (link (withNode l n0 ins) h 0)) < 0"
    and hid: "unat hid = link (withNode l n0 ins) h 0"
  shows "link_inv n0 k bc (Suc h) (ins\<lparr>next := (next ins)(h := hid)\<rparr>)
           (l\<lparr>head := (head l)(h := id' ins)\<rparr>)"
proof -
  let ?V = "withNode l n0 ins"
  let ?ins' = "ins\<lparr>next := (next ins)(h := hid)\<rparr>"
  let ?l' = "l\<lparr>head := (head l)(h := id' ins)\<rparr>"
  let ?V' = "withNode ?l' n0 ?ins'"
  note f = link_inv_facts[OF inv]
  have hm: "h < maxHeight" using hh f(6) by simp
  have len: "length (nodes ?V) = Suc n0" using f(1) by simp
  have mem_eq: "members ?V' n j = members ?V n j" for n j
    using f(1) by (auto simp: members_def nth_list_update)
  have key_eq: "keyAt ?V' = keyAt ?V"
    using f(1) by (auto simp: keyAt_def nth_list_update fun_eq_iff)
  have link_other: "link ?V' j = link ?V j" if "j \<noteq> h" for j
    using f(1) that by (auto simp: link_def nth_list_update fun_eq_iff)
  have lvl_h: "lvl ?V n0 h" and cr_h: "crumb_ok (cmp l) (members ?V n0 h) (keyAt ?V) k (unat (bc h))"
    using inv hm by (auto simp: link_inv_def)
  have hd_lt: "link ?V h 0 < n0"
  proof (cases "link ?V h 0 = 0")
    case True then show ?thesis using f(2) by simp
  next
    case False
    have "succ_at (cmp l) (members ?V n0 h) (keyAt ?V) 0 (link ?V h 0)"
      using lvl_h level_okD[of "cmp l" _ _ _ 0] by (simp add: lvl_def)
    with False have "link ?V h 0 \<in> members ?V n0 h" by (auto dest: succ_atD)
    then show ?thesis by (simp add: members_def)
  qed
  have sh: "shape ?V'"
  proof (rule shape_frame[OF f(4)])
    show "length (nodes ?V') = length (nodes ?V)" by simp
    show "cmp ?V' = cmp ?V" by simp
    show "nodes ?V' ! 0 = nodes ?V ! 0" using f(1,2) by simp
    show "id' (nodes ?V' ! i) = id' (nodes ?V ! i) \<and> key (nodes ?V' ! i) = key (nodes ?V ! i) \<and>
        height (nodes ?V' ! i) = height (nodes ?V ! i)" if "i < length (nodes ?V)" for i
      using that f(1) by (simp add: nth_list_update)
    show "unat (next (nodes ?V' ! i) j) < length (nodes ?V)" 
      if i: "i < length (nodes ?V)" and j: "j < maxHeight" for i j
    proof (cases "i = n0 \<and> j = h")
      case True
      then show ?thesis using hid hd_lt f(1) by simp
    next
      case False
      then have "next (nodes ?V' ! i) j = next (nodes ?V ! i) j"
        using f(1) by (auto simp: nth_list_update)
      then show ?thesis using shape_next_bound[OF f(4) i j] by simp
    qed
    show "unat (head ?V' j) < length (nodes ?V)" if j: "j < maxHeight" for j
    proof (cases "j = h")
      case True then show ?thesis using f(1,5) by simp
    next
      case False
      then have "head ?V' j = head ?V j" by simp
      then show ?thesis using shape_head_bound[OF f(4) j] by simp
    qed
  qed
  have lo: "lvl ?V' (Suc n0) j" if "j < maxHeight" "j < h" for j
  proof -
    have "lvl ?V (Suc n0) j" using inv that by (simp add: link_inv_def)
    then show ?thesis using that by (simp add: lvl_def mem_eq key_eq link_other)
  qed
  have hi: "lvl ?V' n0 j \<and> crumb_ok (cmp ?l') (members ?V' n0 j) (keyAt ?V') k (unat (bc j))" 
    if "j < maxHeight" "Suc h \<le> j" for j
  proof -
    have "lvl ?V n0 j \<and> crumb_ok (cmp l) (members ?V n0 j) (keyAt ?V) k (unat (bc j))" 
      using inv that by (simp add: link_inv_def)
    then show ?thesis using that by (simp add: lvl_def mem_eq key_eq link_other)
  qed
  have at_h: "lvl ?V' (Suc n0) h"
  proof -
    let ?M = "members ?V n0 h"
    have ok: "level_ok (cmp l) ?M (keyAt ?V) (link ?V h)" using lvl_h by (simp add: lvl_def)
    have nm: "n0 \<notin> ?M" by (simp add: members_def)
    have fr: "\<forall>i\<in>?M. cmp l (keyAt ?V n0) (keyAt ?V i) \<noteq> 0"
      using crumb_fresh[OF t cr_h] f(7) by simp
    have c': "link ?V h 0 = 0 \<or> cmp l (keyAt ?V n0) (keyAt ?V (link ?V h 0)) < 0"
      using c f(7) by simp
    have n00: "n0 \<noteq> 0" using f(2) by simp
    from ins_head[OF t ok nm n00 fr c']
    have r: "level_ok (cmp l) (insert n0 ?M) (keyAt ?V) ((link ?V h)(0 := n0, n0 := link ?V h 0))" .
    have m': "members ?V' (Suc n0) h = insert n0 ?M"
      using hh f(1,2) by (simp add: members_Suc mem_eq)
    have l': "link ?V' h p = ((link ?V h)(0 := n0, n0 := link ?V h 0)) p" for p
      using f(1,2,5) hid by (auto simp: link_def nth_list_update)
    have l'': "link ?V' h = (link ?V h)(0 := n0, n0 := link ?V h 0)" by (rule ext) (rule l')
    show ?thesis unfolding lvl_def m' l'' key_eq using r by simp
  qed
  have lo': "\<forall>j<maxHeight. j < Suc h \<longrightarrow> lvl ?V' (Suc n0) j"
    using lo at_h by (auto simp: less_Suc_eq)
  show ?thesis
    unfolding link_inv_def using f(1,2,3) sh lo' hi by simp
qed

lemma link_step_splice:
  assumes t: "total_order (cmp l)" and inv: "link_inv n0 k bc h ins l" and hh: "h \<le> height ins"
    and c: "\<not> (link (withNode l n0 ins) h 0 = 0 \<or>
            cmp l k (keyAt (withNode l n0 ins) (link (withNode l n0 ins) h 0)) < 0)"
    and p: "p = unat (bc h)"
  shows "0 < p \<and> p < n0 \<and>
         link_inv n0 k bc (Suc h) (ins\<lparr>next := (next ins)(h := next (nodes l ! p) h)\<rparr>)
           (l\<lparr>nodes := (nodes l)[p := (nodes l ! p)\<lparr>next := (next (nodes l ! p))(h := id' ins)\<rparr>]\<rparr>)"
proof -
  let ?V = "withNode l n0 ins"
  let ?prev = "nodes l ! p"
  let ?ins' = "ins\<lparr>next := (next ins)(h := next ?prev h)\<rparr>"
  let ?l' = "l\<lparr>nodes := (nodes l)[p := ?prev\<lparr>next := (next ?prev)(h := id' ins)\<rparr>]\<rparr>"
  let ?V' = "withNode ?l' n0 ?ins'"
  let ?M = "members ?V n0 h"
  note f = link_inv_facts[OF inv]
  have hm: "h < maxHeight" using hh f(6) by simp
  have len: "length (nodes ?V) = Suc n0" using f(1) by simp
  have lvl_h: "lvl ?V n0 h" and cr_h: "crumb_ok (cmp l) ?M (keyAt ?V) k (unat (bc h))"
    using inv hm by (auto simp: link_inv_def)
  have ok: "level_ok (cmp l) ?M (keyAt ?V) (link ?V h)" using lvl_h by (simp add: lvl_def)
  have dk: "distinct_keys (cmp l) ?M (keyAt ?V)"
  proof -
    have "distinct_keys (cmp l) (members ?V (Suc n0) 0) (keyAt ?V)"
      using f(4) len by (simp add: shape_def)
    moreover have "?M \<subseteq> members ?V (Suc n0) 0" by (auto simp: members_def)
    ultimately show ?thesis unfolding distinct_keys_def by blast
  qed
  have nm: "n0 \<notin> ?M" by (simp add: members_def)
  have n00: "n0 \<noteq> 0" using f(2) by simp
  have cr': "crumb_ok (cmp l) ?M (keyAt ?V) (keyAt ?V n0) p" using cr_h p f(7) by simp
  have c': "\<not> (link ?V h 0 = 0 \<or> cmp l (keyAt ?V n0) (keyAt ?V (link ?V h 0)) < 0)"
    using c f(7) by simp
  from ins_splice[OF t ok dk nm n00 cr' c']
  have pm: "p \<in> ?M" 
    and r: "level_ok (cmp l) (insert n0 ?M) (keyAt ?V) ((link ?V h)(p := n0, n0 := link ?V h p))"
    by auto
  from pm have p0: "0 < p" and pn: "p < n0" by (auto simp: members_def)
  have mem_eq: "members ?V' n j = members ?V n j" for n j
    using f(1) pn by (auto simp: members_def nth_list_update)
  have key_eq: "keyAt ?V' = keyAt ?V"
    using f(1) pn by (auto simp: keyAt_def nth_list_update fun_eq_iff)
  have link_other: "link ?V' j = link ?V j" if "j \<noteq> h" for j
    using f(1) pn that by (auto simp: link_def nth_list_update fun_eq_iff)
  have lp_lt: "link ?V h p < Suc n0"
  proof -
    have "unat (next (nodes ?V ! p) h) < length (nodes ?V)"
      using shape_next_bound[OF f(4) _ hm, of p] pn len by simp
    then show ?thesis using p0 len by (simp add: link_def)
  qed
  have lp: "unat (next ?prev h) = link ?V h p" using p0 pn f(1) by (simp add: link_def)
  have sh: "shape ?V'"
  proof (rule shape_frame[OF f(4)])
    show "length (nodes ?V') = length (nodes ?V)" by simp
    show "cmp ?V' = cmp ?V" by simp
    show "nodes ?V' ! 0 = nodes ?V ! 0" using f(1,2) p0 by simp
    show "id' (nodes ?V' ! i) = id' (nodes ?V ! i) \<and> key (nodes ?V' ! i) = key (nodes ?V ! i) \<and>
        height (nodes ?V' ! i) = height (nodes ?V ! i)" if "i < length (nodes ?V)" for i
      using that f(1) pn by (simp add: nth_list_update)
    show "unat (next (nodes ?V' ! i) j) < length (nodes ?V)" 
      if i: "i < length (nodes ?V)" and j: "j < maxHeight" for i j
    proof (cases "(i = n0 \<or> i = p) \<and> j = h")
      case True
      then show ?thesis using lp lp_lt f(1,5) pn by (auto simp: nth_list_update)
    next
      case False
      then have "next (nodes ?V' ! i) j = next (nodes ?V ! i) j"
        using f(1) pn by (auto simp: nth_list_update)
      then show ?thesis using shape_next_bound[OF f(4) i j] by simp
    qed
    show "unat (head ?V' j) < length (nodes ?V)" if j: "j < maxHeight" for j
      using shape_head_bound[OF f(4) j] by simp
  qed
  have lo: "lvl ?V' (Suc n0) j" if "j < maxHeight" "j < h" for j
  proof -
    have "lvl ?V (Suc n0) j" using inv that by (simp add: link_inv_def)
    then show ?thesis using that by (simp add: lvl_def mem_eq key_eq link_other)
  qed
  have hi: "lvl ?V' n0 j \<and> crumb_ok (cmp ?l') (members ?V' n0 j) (keyAt ?V') k (unat (bc j))" 
    if "j < maxHeight" "Suc h \<le> j" for j
  proof -
    have "lvl ?V n0 j \<and> crumb_ok (cmp l) (members ?V n0 j) (keyAt ?V) k (unat (bc j))" 
      using inv that by (simp add: link_inv_def)
    then show ?thesis using that by (simp add: lvl_def mem_eq key_eq link_other)
  qed
  have at_h: "lvl ?V' (Suc n0) h"
  proof -
    have m': "members ?V' (Suc n0) h = insert n0 ?M"
      using hh f(1,2) pn by (simp add: members_Suc mem_eq)
    have l': "link ?V' h q = ((link ?V h)(p := n0, n0 := link ?V h p)) q" for q
      using f(1,2,5) p0 pn by (auto simp: link_def nth_list_update)
    have l'': "link ?V' h = (link ?V h)(p := n0, n0 := link ?V h p)" by (rule ext) (rule l')
    show ?thesis unfolding lvl_def m' l'' key_eq using r by simp
  qed
  have lo': "\<forall>j<maxHeight. j < Suc h \<longrightarrow> lvl ?V' (Suc n0) j"
    using lo at_h by (auto simp: less_Suc_eq)
  have "link_inv n0 k bc (Suc h) ?ins' ?l'"
    unfolding link_inv_def using f(1,2,3) sh lo' hi by simp
  with p0 pn show ?thesis by simp
qed

lemma same_data_refl [simp]: "same_data A A"
  by (simp add: same_data_def)

lemma same_data_trans: "same_data A B \<Longrightarrow> same_data B C \<Longrightarrow> same_data A C"
  by (simp add: same_data_def)

lemma link_inv_head:
  assumes inv: "link_inv n0 k bc h ins l" and hm: "h < maxHeight"
  shows "link (withNode l n0 ins) h 0 < n0" "unat (head l h) = link (withNode l n0 ins) h 0"
proof -
  let ?V = "withNode l n0 ins"
  note f = link_inv_facts[OF inv]
  have lvl_h: "lvl ?V n0 h" using inv hm by (auto simp: link_inv_def)
  show "link ?V h 0 < n0"
  proof (cases "link ?V h 0 = 0")
    case True then show ?thesis using f(2) by simp
  next
    case False
    have "succ_at (cmp l) (members ?V n0 h) (keyAt ?V) 0 (link ?V h 0)"
      using lvl_h level_okD[of "cmp l" _ _ _ 0] by (simp add: lvl_def)
    with False have "link ?V h 0 \<in> members ?V n0 h" by (auto dest: succ_atD)
    then show ?thesis by (simp add: members_def)
  qed
  show "unat (head l h) = link ?V h 0" by (simp add: link_def)
qed

lemma shape_key_None:
  "shape V \<Longrightarrow> i < length (nodes V) \<Longrightarrow> (key (nodes V ! i) = None) = (i = 0)"
  by (cases "i = 0") (auto simp: shape_def sentinel_def)

lemma shape_id: "shape V \<Longrightarrow> i < length (nodes V) \<Longrightarrow> unat (id' (nodes V ! i)) = i"
  by (simp add: shape_def)

lemma put_link_total:
  assumes t: "total_order (cmp l0)"
  shows "link_inv n0 k bc h ins l \<Longrightarrow> cmp l = cmp l0 \<Longrightarrow> h \<le> Suc (height ins) \<Longrightarrow>
    \<exists>ins' l'. put_link h bc ins l = (Inr ins', l') \<and>
       link_inv n0 k bc (Suc (height ins)) ins' l' \<and> height ins' = height ins \<and>
       same_data (withNode l' n0 ins') (withNode l n0 ins)"
proof (induction "Suc (height ins) - h" arbitrary: h ins l)
  case 0
  then have "\<not> h \<le> height ins" and "h = Suc (height ins)" by auto
  then have "put_link h bc ins l = (Inr ins, l)" by (subst put_link.simps) simp
  with 0 \<open>h = Suc (height ins)\<close> show ?case by simp
next
  case (Suc d)
  let ?V = "withNode l n0 ins"
  note inv = Suc.prems(1)
  note f = link_inv_facts[OF inv]
  have hh: "h \<le> height ins" using Suc.hyps(2) by simp
  have hm: "h < maxHeight" using hh f(6) by simp
  have t': "total_order (cmp l)" using t Suc.prems(2) by simp
  let ?hd = "link ?V h 0"
  have hd_lt: "?hd < n0" and hd_eq: "unat (head l h) = ?hd" using link_inv_head[OF inv hm] by auto
  let ?headNd = "nodes l ! ?hd"
  have g: "getNode l (head l h) = Inr ?headNd" using hd_lt hd_eq f(1) by (simp add: getNode_def)
  have hV: "nodes ?V ! ?hd = ?headNd" using hd_lt f(1) by simp
  have hid: "unat (id' ?headNd) = ?hd" using shape_id[OF f(4), of ?hd] hd_lt f(1) hV by simp
  have hkey: "(key ?headNd = None) = (?hd = 0)" 
    using shape_key_None[OF f(4), of ?hd] hd_lt f(1) hV by simp
  have kV: "keyAt ?V ?hd = key ?headNd" using hV by (simp add: keyAt_def)
  have cmp_eq: "(compare l ins ?headNd < 0) = (?hd = 0 \<or> cmp l k (keyAt ?V ?hd) < 0)"
    using hkey kV f(3) by (auto simp: compare_def compareKeys_def)
  show ?case
  proof (cases "compare l ins ?headNd < 0")
    case True
    let ?ins' = "ins\<lparr>next := (next ins)(h := id' ?headNd)\<rparr>"
    let ?l' = "l\<lparr>head := (head l)(h := id' ins)\<rparr>"
    have c: "?hd = 0 \<or> cmp l k (keyAt ?V ?hd) < 0" using True cmp_eq by simp
    have inv': "link_inv n0 k bc (Suc h) ?ins' ?l'"
      using link_step_head[OF t' inv hh c hid] .
    have d: "d = Suc (height ?ins') - Suc h" using Suc.hyps(2) by simp
    have c': "cmp ?l' = cmp l0" using Suc.prems(2) by simp
    have h': "Suc h \<le> Suc (height ?ins')" using hh by simp
    from Suc.hyps(1)[OF d inv' c' h'] obtain ins2 l2 where
      r: "put_link (Suc h) bc ?ins' ?l' = (Inr ins2, l2)"
      and i2: "link_inv n0 k bc (Suc (height ?ins')) ins2 l2" and h2: "height ins2 = height ?ins'"
      and sd: "same_data (withNode l2 n0 ins2) (withNode ?l' n0 ?ins')" by blast
    have e: "put_link h bc ins l = (Inr ins2, l2)"
      using hh g True r by (subst put_link.simps) simp
    have sd': "same_data (withNode ?l' n0 ?ins') ?V"
      using f(1) by (simp add: same_data_def nth_list_update)
    show ?thesis using e i2 h2 same_data_trans[OF sd sd'] by simp
  next
    case False
    let ?p = "unat (bc h)"
    let ?prev = "nodes l ! ?p"
    let ?ins' = "ins\<lparr>next := (next ins)(h := next ?prev h)\<rparr>"
    let ?l' = "l\<lparr>nodes := (nodes l)[?p := ?prev\<lparr>next := (next ?prev)(h := id' ins)\<rparr>]\<rparr>"
    have c: "\<not> (?hd = 0 \<or> cmp l k (keyAt ?V ?hd) < 0)" using False cmp_eq by simp
    from link_step_splice[OF t' inv hh c refl]
    have p0: "0 < ?p" and pn: "?p < n0" and inv': "link_inv n0 k bc (Suc h) ?ins' ?l'" by auto
    have gp: "getNode l (bc h) = Inr ?prev" using pn f(1) by (simp add: getNode_def)
    have pV: "nodes ?V ! ?p = ?prev" using pn f(1) by simp
    have pid: "unat (id' ?prev) = ?p" using shape_id[OF f(4), of ?p] pn f(1) pV by simp
    have up: "updateNode l (?prev\<lparr>next := (next ?prev)(h := id' ins)\<rparr>) = Inr ?l'"
      using pid pn f(1) by (simp add: updateNode_def)
    have d: "d = Suc (height ?ins') - Suc h" using Suc.hyps(2) by simp
    have c': "cmp ?l' = cmp l0" using Suc.prems(2) by simp
    have h': "Suc h \<le> Suc (height ?ins')" using hh by simp
    from Suc.hyps(1)[OF d inv' c' h'] obtain ins2 l2 where
      r: "put_link (Suc h) bc ?ins' ?l' = (Inr ins2, l2)"
      and i2: "link_inv n0 k bc (Suc (height ?ins')) ins2 l2" and h2: "height ins2 = height ?ins'"
      and sd: "same_data (withNode l2 n0 ins2) (withNode ?l' n0 ?ins')" by blast
    have e: "put_link h bc ins l = (Inr ins2, l2)"
      using hh g False gp up r by (subst put_link.simps) simp
    have sd': "same_data (withNode ?l' n0 ?ins') ?V"
      using f(1) pn by (simp add: same_data_def nth_list_update)
    show ?thesis using e i2 h2 same_data_trans[OF sd sd'] by simp
  qed
qed

section \<open>\<open>Put\<close> preserves the invariant\<close>

lemma lvl_frame:
  assumes "cmp A = cmp B" "head A j = head B j"
    and "\<And>i. 0 < i \<Longrightarrow> i < n \<Longrightarrow>
        key (nodes A ! i) = key (nodes B ! i) \<and> height (nodes A ! i) = height (nodes B ! i) \<and>
        next (nodes A ! i) j = next (nodes B ! i) j"
  shows "lvl A n j = lvl B n j"
proof -
  have m: "members A n j = members B n j" using assms(3) by (auto simp: members_def)
  have k: "keyAt A i = keyAt B i" if "i \<in> members A n j" for i
    using that assms(3) by (simp add: members_def keyAt_def)
  have l: "link A j p = link B j p" if "p = 0 \<or> p \<in> members A n j" for p
    using that assms(2,3) by (auto simp: members_def link_def)
  show ?thesis unfolding lvl_def assms(1) using level_ok_cong[OF m k l] by simp
qed

lemma crumb_frame:
  assumes "\<And>i. 0 < i \<Longrightarrow> i < n \<Longrightarrow>
        key (nodes A ! i) = key (nodes B ! i) \<and> height (nodes A ! i) = height (nodes B ! i)"
  shows "crumb_ok c (members A n j) (keyAt A) k p = crumb_ok c (members B n j) (keyAt B) k p"
proof -
  have m: "members A n j = members B n j" using assms by (auto simp: members_def)
  have k: "keyAt A i = keyAt B i" if "i \<in> members A n j" for i
    using that assms by (simp add: members_def keyAt_def)
  show ?thesis using crumb_ok_cong[OF m k] by simp
qed

lemma wellformed_lvl: "wellformed l \<Longrightarrow> h < maxHeight \<Longrightarrow> lvl l (length (nodes l)) h"
  by (simp add: wellformed_def lvl_def)

lemma wf_put_update:
  assumes w: "wellformed l" and j: "j < length (nodes l)" "0 < j"
  shows "wellformed (put_update l j v)"
proof -
  let ?l' = "put_update l j v"
  have s: "shape l" using w by (simp add: wellformed_def)
  have sh: "shape ?l'"
  proof (rule shape_frame[OF s])
    show "length (nodes ?l') = length (nodes l)" by (simp add: put_update_def)
    show "cmp ?l' = cmp l" by (simp add: put_update_def)
    show "nodes ?l' ! 0 = nodes l ! 0" using j by (simp add: put_update_def)
    show "id' (nodes ?l' ! i) = id' (nodes l ! i) \<and> key (nodes ?l' ! i) = key (nodes l ! i) \<and>
        height (nodes ?l' ! i) = height (nodes l ! i)" if "i < length (nodes l)" for i
      using that j by (simp add: put_update_def nth_list_update)
    show "unat (next (nodes ?l' ! i) h) < length (nodes l)" 
      if i: "i < length (nodes l)" and h: "h < maxHeight" for i h
      using shape_next_bound[OF s i h] j by (simp add: put_update_def nth_list_update)
    show "unat (head ?l' h) < length (nodes l)" if h: "h < maxHeight" for h
      using shape_head_bound[OF s h] by (simp add: put_update_def)
  qed
  have "lvl ?l' (length (nodes ?l')) h" if h: "h < maxHeight" for h
  proof -
    have "lvl ?l' (length (nodes l)) h = lvl l (length (nodes l)) h"
      by (rule lvl_frame) (use j in \<open>simp_all add: put_update_def nth_list_update\<close>)
    then show ?thesis using wellformed_lvl[OF w h] by (simp add: put_update_def)
  qed
  with sh show ?thesis by (simp add: wellformed_def lvl_def put_update_def)
qed

lemma rollHeight_lt: "fst (rollHeight r) < maxHeight"
  by (simp add: rollHeight_def Int63_def patterns_def maxHeight_def)

lemma unat_of_nat_id32: "int n - 1 < maxCount \<Longrightarrow> unat (of_nat n :: 32 word) = n"
  by (simp add: maxCount_def unat_of_nat)

lemma link_inv_final:
  assumes inv: "link_inv n0 k bc (Suc (height ins)) ins l"
  shows "wellformed (withNode l n0 ins)"
proof -
  let ?V = "withNode l n0 ins"
  note f = link_inv_facts[OF inv]
  have len: "length (nodes ?V) = Suc n0" using f(1) by simp
  have hV: "height (nodes ?V ! n0) = height ins" using f(1) by simp
  have "lvl ?V (Suc n0) j" if j: "j < maxHeight" for j
  proof (cases "j < Suc (height ins)")
    case True
    then show ?thesis using inv j by (simp add: link_inv_def)
  next
    case False
    then have "lvl ?V n0 j" using inv j by (simp add: link_inv_def)
    moreover have "members ?V (Suc n0) j = members ?V n0 j"
      using False hV by (simp add: members_Suc)
    ultimately show ?thesis by (simp add: lvl_def)
  qed
  then show ?thesis unfolding wellformed_def len using f(4) by (simp add: lvl_def)
qed

lemma wf_fresh:
  assumes t: "total_order (cmp l)"
    and cr: "crumb_ok (cmp l) (members l (length (nodes l)) 0) (keyAt l) k p"
    and j: "0 < j" "j < length (nodes l)"
  shows "cmp l k (keyAt l j) \<noteq> 0"
  using crumb_fresh[OF t cr, of j] j by (simp add: members_def)

lemma link_inv_init:
  assumes w: "wellformed l" and t: "total_order (cmp l)" and kn: "k \<noteq> None" and nf: "\<not> Full l"
    and cr: "\<forall>h<maxHeight.
        crumb_ok (cmp l) (members l (length (nodes l)) h) (keyAt l) k (unat (bc h))"
    and mk: "makeNode l k v = (ins, l1)"
  shows "link_inv (length (nodes l)) k bc 0 ins l1"
    and "withNode l1 (length (nodes l)) ins = l1"
    and "nodes l1 = nodes l @ [ins]" and "cmp l1 = cmp l" and "head l1 = head l"
    and "src l1 = snd (rollHeight (src l))"
    and "key ins = k" and "val ins = v" and "height ins = fst (rollHeight (src l))"
proof -
  let ?n = "length (nodes l)"
  have s: "shape l" using w by (simp add: wellformed_def)
  have n0: "0 < ?n" using s by (simp add: shape_def)
  have ins: "ins = \<lparr>id' = of_nat ?n, key = k, val = v, height = fst (rollHeight (src l)),
                    next = zeroPointer\<rparr>"
    and l1: "l1 = l\<lparr>nodes := nodes l @ [ins], src := snd (rollHeight (src l))\<rparr>"
    using mk by (auto simp: makeNode_def Let_def split: prod.splits)
  show nl: "nodes l1 = nodes l @ [ins]" and c1: "cmp l1 = cmp l" and "head l1 = head l"
    and "src l1 = snd (rollHeight (src l))"
    using l1 by simp_all
  show ki: "key ins = k" and "val ins = v" and hi: "height ins = fst (rollHeight (src l))"
    using ins by simp_all
  show V: "withNode l1 ?n ins = l1" using l1 by (simp add: withNode_def)
  have cap: "int ?n - 1 < maxCount" using nf by (simp add: Full_def Count_def)
  have idn: "unat (id' ins) = ?n" using ins unat_of_nat_id32[OF cap] by simp
  have old: "nodes l1 ! i = nodes l ! i" if "i < ?n" for i
    using that nl by (simp add: nth_append)
  have new: "nodes l1 ! ?n = ins" using nl by simp
  have len1: "length (nodes l1) = Suc ?n" using nl by simp
  have k0: "crumb_ok (cmp l) (members l ?n 0) (keyAt l) k (unat (bc 0))"
    using cr by (simp add: maxHeight_def)
  have dk: "distinct_keys (cmp l1) (members l1 (Suc ?n) 0) (keyAt l1)"
  proof -
    have d: "distinct_keys (cmp l) (members l ?n 0) (keyAt l)" using s by (simp add: shape_def)
    have "i = j" if i: "i \<in> members l1 (Suc ?n) 0" and j: "j \<in> members l1 (Suc ?n) 0"
      and e: "cmp l (keyAt l1 i) (keyAt l1 j) = 0" for i j
    proof -
      from i j have b: "0 < i" "i \<le> ?n" "0 < j" "j \<le> ?n" by (auto simp: members_def)
      have kold: "keyAt l1 x = keyAt l x" if "x < ?n" for x using old[OF that] by (simp add: keyAt_def)
      have knew: "keyAt l1 ?n = k" using new ki by (simp add: keyAt_def)
      consider "i < ?n" "j < ?n" | "i = ?n" "j = ?n" | "i = ?n" "j < ?n" | "i < ?n" "j = ?n"
        using b by linarith
      then show ?thesis
      proof cases
        case 1
        then have "i \<in> members l ?n 0" "j \<in> members l ?n 0" using b by (auto simp: members_def)
        with d e 1 show ?thesis by (simp add: distinct_keys_def kold)
      next
        case 2 then show ?thesis by simp
      next
        case 3
        with e have "cmp l k (keyAt l j) = 0" by (simp add: kold knew)
        with wf_fresh[OF t k0 b(3) 3(2)] show ?thesis by simp
      next
        case 4
        with e have "cmp l (keyAt l i) k = 0" by (simp add: kold knew)
        then have "cmp l k (keyAt l i) = 0" using to_sym[OF t] by simp
        with wf_fresh[OF t k0 b(1) 4(1)] show ?thesis by simp
      qed
    qed
    then show ?thesis unfolding distinct_keys_def c1 by blast
  qed
  have sh: "shape l1"
  proof -
    have A: "0 < length (nodes l1)" "int (length (nodes l1)) - 1 \<le> maxCount" 
      using len1 cap by simp_all
    have B: "nodes l1 ! 0 = sentinel" using old[OF n0] s by (simp add: shape_def)
    have C: "\<forall>i<length (nodes l1). unat (id' (nodes l1 ! i)) = i"
      using len1 old new idn s by (auto simp: shape_def less_Suc_eq)
    have D: "\<forall>i<length (nodes l1). 0 < i \<longrightarrow> key (nodes l1 ! i) \<noteq> None \<and> height (nodes l1 ! i) < maxHeight"
      using len1 old new ki kn hi rollHeight_lt s by (auto simp: shape_def less_Suc_eq)
    have E: "\<forall>i<length (nodes l1). \<forall>h<maxHeight. unat (next (nodes l1 ! i) h) < length (nodes l1)"
    proof (intro allI impI)
      fix i h assume i: "i < length (nodes l1)" and h: "h < maxHeight"
      show "unat (next (nodes l1 ! i) h) < length (nodes l1)"
      proof (cases "i < ?n")
        case True
        then show ?thesis using shape_next_bound[OF s True h] old[OF True] len1 by simp
      next
        case False
        with i len1 have "i = ?n" by simp
        then show ?thesis using new ins len1 by (simp add: zeroPointer_def)
      qed
    qed
    have F: "\<forall>h<maxHeight. unat (head l1 h) < length (nodes l1)"
      using l1 s by (auto simp: shape_def less_Suc_eq)
    show ?thesis unfolding shape_def using A B C D E F dk len1 by simp
  qed
  have lv: "lvl l1 ?n j \<and> crumb_ok (cmp l1) (members l1 ?n j) (keyAt l1) k (unat (bc j))"
    if j: "j < maxHeight" for j
  proof -
    have "lvl l1 ?n j = lvl l ?n j"
      by (rule lvl_frame) (use l1 old in simp_all)
    moreover have "crumb_ok (cmp l1) (members l1 ?n j) (keyAt l1) k (unat (bc j)) =
        crumb_ok (cmp l1) (members l ?n j) (keyAt l) k (unat (bc j))"
      by (rule crumb_frame) (use old in simp)
    ultimately show ?thesis using wellformed_lvl[OF w j] cr j c1 by simp
  qed
  show "link_inv ?n k bc 0 ins l1"
    unfolding link_inv_def V using len1 n0 ki sh lv by simp
qed

lemma Put_total:
  assumes w: "wellformed l" and t: "total_order (cmp l)" and kn: "k \<noteq> None" and nf: "\<not> Full l"
  shows "\<exists>l'. Put l k v = Some (Done l') \<and> wellformed l' \<and> cmp l' = cmp l \<and>
          ((\<exists>j. stored_at l k j \<and> l' = put_update l j v) \<or>
           ((\<forall>j. \<not> stored_at l k j) \<and> put_insert l k v l'))"
proof -
  let ?n = "length (nodes l)"
  have hm: "Suc highest = maxHeight" by (simp add: highest_def maxHeight_def)
  have pos: "pos_ok l maxHeight k 0 zeroNode (head l)" by (simp add: pos_ok_def zeroNode_def)
  have bc0: "\<forall>h<maxHeight. maxHeight \<le> h \<longrightarrow>
        crumb_ok (cmp l) (members l ?n h) (keyAt l) k (unat (zeroPointer h))" by simp
  from put_descend_total[OF w t le_refl pos bc0, of v]
  consider (upd) j where "0 < j" "j < ?n" "cmp l k (keyAt l j) = 0"
      "put_descend maxHeight l k v zeroNode (head l) zeroPointer =
         Some (Inr (Updated (l\<lparr>nodes := (nodes l)[j := (nodes l ! j)\<lparr>val := v\<rparr>]\<rparr>)))"
    | (ins) bc where "put_descend maxHeight l k v zeroNode (head l) zeroPointer = Some (Inr (Crumbs bc))"
      "\<forall>h<maxHeight. crumb_ok (cmp l) (members l ?n h) (keyAt l) k (unat (bc h))"
    by blast
  then show ?thesis
  proof cases
    case upd
    have "Put l k v = Some (Done (put_update l j v))"
      unfolding Put_def hm using kn nf upd(4) by (simp add: put_update_def)
    moreover have "wellformed (put_update l j v)" using wf_put_update[OF w upd(2,1)] .
    moreover have "stored_at l k j" using upd(1-3) by (simp add: stored_at_def)
    moreover have "cmp (put_update l j v) = cmp l" by (simp add: put_update_def)
    ultimately show ?thesis by blast
  next
    case ins
    obtain nd l1 where mk: "makeNode l k v = (nd, l1)" by (cases "makeNode l k v")
    note i = link_inv_init[OF w t kn nf ins(2) mk]
    have t1: "total_order (cmp l1)" using t i(4) by simp
    from put_link_total[OF t1 i(1) refl, of] obtain nd' l2 where
      r: "put_link 0 bc nd l1 = (Inr nd', l2)"
      and inv: "link_inv ?n k bc (Suc (height nd)) nd' l2" and hn: "height nd' = height nd"
      and sd: "same_data (withNode l2 ?n nd') (withNode l1 ?n nd)" by auto
    let ?l' = "withNode l2 ?n nd'"
    have inv': "link_inv ?n k bc (Suc (height nd')) nd' l2" using inv hn by simp
    note f = link_inv_facts[OF inv']
    have up: "updateNode l2 nd' = Inr ?l'" using f(1,5) by (simp add: updateNode_def withNode_def)
    have P: "Put l k v = Some (Done ?l')"
      unfolding Put_def hm using kn nf ins(1) mk r up by simp
    have W: "wellformed ?l'" using link_inv_final[OF inv'] .
    have sd1: "same_data ?l' l1" using sd i(2) by simp
    have C: "cmp ?l' = cmp l" using sd1 i(4) by (simp add: same_data_def)
    have fresh: "\<forall>j. \<not> stored_at l k j"
    proof -
      have "crumb_ok (cmp l) (members l ?n 0) (keyAt l) k (unat (bc 0))"
        using ins(2) by (simp add: maxHeight_def)
      then show ?thesis using wf_fresh[OF t] by (auto simp: stored_at_def)
    qed
    have o: "nodes l1 ! x = nodes l ! x" if "x < ?n" for x using that i(3) by (simp add: nth_append)
    have nw: "nodes l1 ! ?n = nd" using i(3) by simp
    have l1n: "length (nodes l1) = Suc ?n" using i(3) by simp
    have sdi: "id' (nodes ?l' ! x) = id' (nodes l1 ! x) \<and> key (nodes ?l' ! x) = key (nodes l1 ! x) \<and>
        val (nodes ?l' ! x) = val (nodes l1 ! x) \<and> height (nodes ?l' ! x) = height (nodes l1 ! x)"
      if "x < Suc ?n" for x
      using sd1 that l1n unfolding same_data_def by metis
    have E1: "length (nodes ?l') = Suc ?n" "src ?l' = snd (rollHeight (src l))"
      using sd1 l1n i(6) by (simp_all add: same_data_def)
    have E2: "\<forall>x<?n. id' (nodes ?l' ! x) = id' (nodes l ! x) \<and> key (nodes ?l' ! x) = key (nodes l ! x) \<and>
        val (nodes ?l' ! x) = val (nodes l ! x) \<and> height (nodes ?l' ! x) = height (nodes l ! x)"
      using sdi o by (metis less_Suc_eq)
    have E3: "key (nodes ?l' ! ?n) = k" "val (nodes ?l' ! ?n) = v"
      "height (nodes ?l' ! ?n) = fst (rollHeight (src l))"
      using sdi[of ?n] nw i(7,8,9) by simp_all
    have E: "put_insert l k v ?l'"
      unfolding put_insert_def using E1 E2 E3 by blast
    from P W C fresh E show ?thesis by blast
  qed
qed

section \<open>The capacity of the list\<close>

lemma updateNode_length: "updateNode l n = Inr l' \<Longrightarrow> length (nodes l') = length (nodes l)"
  by (auto simp: updateNode_def split: if_splits)

lemma put_descend_length:
  "put_descend m l k v prevNd nxt bc = Some (Inr (Updated l')) \<Longrightarrow>
   length (nodes l') = length (nodes l)"
proof (induction m arbitrary: prevNd nxt bc)
  case 0
  then show ?case by simp
next
  case (Suc m)
  then show ?case
    by (auto simp: put_descend.simps split: sum.splits option.splits if_splits dest: updateNode_length)
qed

lemma put_link_length: "length (nodes (snd (put_link h bc ins l))) = length (nodes l)"
proof (induction h bc ins l rule: put_link.induct)
  case (1 h bc ins l)
  show ?case
  proof (cases "h \<le> height ins")
    case False
    then show ?thesis by (subst put_link.simps) simp
  next
    case True
    show ?thesis
    proof (cases "getNode l (head l h)")
      case (Inl e)
      with True show ?thesis by (subst put_link.simps) simp
    next
      case (Inr headNd)
      show ?thesis
      proof (cases "compare l ins headNd < 0")
        case lt: True
        from 1(1)[OF True Inr lt] True Inr lt show ?thesis
          by (subst put_link.simps) simp
      next
        case ge: False
        show ?thesis
        proof (cases "getNode l (bc h)")
          case (Inl e)
          with True Inr ge show ?thesis by (subst put_link.simps) simp
        next
          case prev: (Inr prev)
          show ?thesis
          proof (cases "updateNode l (prev\<lparr>next := (next prev)(h := id' ins)\<rparr>)")
            case (Inl e)
            with True Inr ge prev show ?thesis by (subst put_link.simps) simp
          next
            case up: (Inr l')
            from 1(2)[OF True Inr ge prev up] updateNode_length[OF up] True Inr ge prev up
            show ?thesis by (subst put_link.simps) simp
          qed
        qed
      qed
    qed
  qed
qed

lemma Put_Count_bound:
  assumes c: "Count l \<le> maxCount" and p: "Put l k v = Some r"
  shows "Count (state_of r) \<le> maxCount"
proof (cases "k = None \<or> Full l")
  case True
  with p have "state_of r = l" by (auto simp: Put_def split: if_splits)
  with c show ?thesis by simp
next
  case False
  then have kn: "k \<noteq> None" and nf': "\<not> Full l" by auto
  have nf: "Count l < maxCount" using nf' by (simp add: Full_def)
  note pd = p[unfolded Put_def if_not_P[OF kn] if_not_P[OF nf']]
  let ?d = "put_descend (Suc highest) l k v zeroNode (head l) zeroPointer"
  have "length (nodes (state_of r)) \<le> Suc (length (nodes l))"
  proof (cases ?d)
    case None
    with pd show ?thesis by simp
  next
    case (Some a)
    show ?thesis
    proof (cases a)
      case (Inl e)
      with pd Some show ?thesis by auto
    next
      case (Inr d)
      show ?thesis
      proof (cases d)
        case (Updated l')
        with pd Some Inr have "r = Done l'" by simp
        moreover have "length (nodes l') = length (nodes l)"
          using put_descend_length[of "Suc highest"] Some Inr Updated by blast
        ultimately show ?thesis by simp
      next
        case (Crumbs bc)
        obtain nd l1 where mk: "makeNode l k v = (nd, l1)" by (cases "makeNode l k v")
        have l1: "length (nodes l1) = Suc (length (nodes l))"
          using mk by (auto simp: makeNode_def Let_def split: prod.splits)
        obtain x l2 where pl: "put_link 0 bc nd l1 = (x, l2)" by (cases "put_link 0 bc nd l1")
        have l2: "length (nodes l2) = Suc (length (nodes l))"
          using put_link_length[of 0 bc nd l1] pl l1 by simp
        show ?thesis
        proof (cases x)
          case (Inl e)
          with pd Some Inr Crumbs mk pl have "r = Panic e l2" by simp
          with l2 show ?thesis by simp
        next
          case x: (Inr nd')
          show ?thesis
          proof (cases "updateNode l2 nd'")
            case (Inl e)
            with pd Some Inr Crumbs mk pl x have "r = Panic e l2" by simp
            with l2 show ?thesis by simp
          next
            case up: (Inr l3)
            with pd Some Inr Crumbs mk pl x have "r = Done l3" by simp
            with l2 updateNode_length[OF up] show ?thesis by simp
          qed
        qed
      qed
    qed
  qed
  with nf show ?thesis by (simp add: Count_def)
qed

lemma run_puts_Count_bound:
  "Count l \<le> maxCount \<Longrightarrow> run_puts l ops = Some r \<Longrightarrow> Count (state_of r) \<le> maxCount"
proof (induction ops arbitrary: l)
  case Nil
  then show ?case by auto
next
  case (Cons a ops)
  obtain k v where a: "a = (k, v)" by (cases a)
  from Cons.prems(2) obtain r1 where p: "Put l k v = Some r1"
    by (auto simp: a split: option.splits)
  have b: "Count (state_of r1) \<le> maxCount" using Put_Count_bound[OF Cons.prems(1) p] .
  show ?case
  proof (cases r1)
    case (Done l')
    with Cons.prems(2) p have "run_puts l' ops = Some r" by (simp add: a)
    with Cons.IH[of l' ] b Done show ?thesis by simp
  next
    case (Panic e l')
    with Cons.prems(2) p have "r = Panic e l'" by (simp add: a)
    with b Panic show ?thesis by simp
  qed
qed

lemma New_Count: "Count (NewSkipList ns c) = 0"
  by (simp add: NewSkipList_def Count_def)

section \<open>\<open>Get\<close> on a list that satisfies the invariant\<close>

lemma wf_id: "wellformed l \<Longrightarrow> i < length (nodes l) \<Longrightarrow> unat (id' (nodes l ! i)) = i"
  by (simp add: wellformed_def shape_def)

lemma get_seek_total:
  assumes w: "wellformed l" and t: "total_order (cmp l)" and h: "h < maxHeight"
  shows "pos_ok l h k p (nodes l ! p) ptr \<Longrightarrow>
    \<exists>p' ptr'.
      get_seek l k h ptr (nodes l ! link l h p) = Some (Inr (ptr', nodes l ! link l h p')) \<and>
      pos_ok l h k p' (nodes l ! p') ptr' \<and>
      \<not> 0 < compareKeys l k (keyAt l (link l h p'))"
proof (induction "card {i \<in> members l (length (nodes l)) h. beyond (cmp l) (keyAt l) p i}"
    arbitrary: p ptr rule: less_induct)
  case less
  let ?M = "members l (length (nodes l)) h"
  let ?j = "link l h p"
  have ok: "level_ok (cmp l) ?M (keyAt l) (link l h)" using w h by (simp add: wellformed_def)
  have pin: "p \<in> insert 0 ?M" using less.prems by (auto simp: pos_ok_def)
  have plen: "p < length (nodes l)" using pos_ok_len[OF w less.prems] .
  have jlen: "?j < length (nodes l)" using wf_link_bound[OF w h plen] .
  show ?case
  proof (cases "0 < compareKeys l k (keyAt l ?j)")
    case False
    then have "get_seek l k h ptr (nodes l ! ?j) = Some (Inr (ptr, nodes l ! ?j))"
      by (subst get_seek.simps) (simp add: keyAt_def)
    with False less.prems show ?thesis by blast
  next
    case True
    then have jnz: "?j \<noteq> 0" and gt: "0 < cmp l k (keyAt l ?j)"
      using compareKeys_at[OF w jlen, of k] by (auto split: if_splits)
    have jm: "?j \<in> ?M" using wf_link_member[OF w h pin jnz] .
    let ?cur = "nodes l ! ?j"
    have pos': "pos_ok l h k ?j ?cur (next ?cur)"
      using jm jnz gt wf_id[OF w jlen] to_flip[OF t, of "keyAt l ?j" k] by (simp add: pos_ok_def)
    have lk: "unat (next ?cur h) = link l h ?j" using jnz by (simp add: link_def)
    have jjlen: "link l h ?j < length (nodes l)" using wf_link_bound[OF w h jlen] .
    have dec: "card {i \<in> ?M. beyond (cmp l) (keyAt l) ?j i} < card {i \<in> ?M. beyond (cmp l) (keyAt l) p i}"
      using seek_decr[OF t _ ok pin jnz] by simp
    from less.hyps[OF dec pos'] obtain p' ptr' where
      r: "get_seek l k h (next ?cur) (nodes l ! link l h ?j) =
            Some (Inr (ptr', nodes l ! link l h p'))"
      and p': "pos_ok l h k p' (nodes l ! p') ptr'"
      and e: "\<not> 0 < compareKeys l k (keyAt l (link l h p'))" by blast
    have "get_seek l k h ptr (nodes l ! ?j) = Some (Inr (ptr', nodes l ! link l h p'))"
      using True r lk jjlen by (subst get_seek.simps) (simp add: keyAt_def getNode_def)
    with p' e show ?thesis by blast
  qed
qed

lemma get_descend_total:
  assumes w: "wellformed l" and t: "total_order (cmp l)"
  shows "Suc m \<le> maxHeight \<Longrightarrow> pos_ok l (Suc m) k p (nodes l ! p) ptr \<Longrightarrow>
     \<exists>p' ptr'. get_descend (Suc m) l k ptr cur = Some (Inr (nodes l ! link l 0 p')) \<and>
        pos_ok l 0 k p' (nodes l ! p') ptr' \<and>
        \<not> 0 < compareKeys l k (keyAt l (link l 0 p'))"
proof (induction m arbitrary: p ptr cur)
  case 0
  have m: "0 < maxHeight" using 0 by simp
  have pos: "pos_ok l 0 k p (nodes l ! p) ptr" using 0 pos_ok_down by blast
  have jlen: "link l 0 p < length (nodes l)" using wf_link_bound[OF w m pos_ok_len[OF w pos]] .
  from get_seek_total[OF w t m pos] obtain p' ptr' where
    r: "get_seek l k 0 ptr (nodes l ! link l 0 p) = Some (Inr (ptr', nodes l ! link l 0 p'))"
    and pos': "pos_ok l 0 k p' (nodes l ! p') ptr'"
    and e: "\<not> 0 < compareKeys l k (keyAt l (link l 0 p'))" by blast
  have "get_descend (Suc 0) l k ptr cur = Some (Inr (nodes l ! link l 0 p'))"
    using r pos_ok_link[OF pos, of 0] jlen by (simp add: get_descend.simps getNode_def)
  with pos' e show ?case by blast
next
  case (Suc m)
  have m: "Suc m < maxHeight" using Suc.prems by simp
  have pos: "pos_ok l (Suc m) k p (nodes l ! p) ptr" using Suc.prems pos_ok_down by blast
  have jlen: "link l (Suc m) p < length (nodes l)"
    using wf_link_bound[OF w m pos_ok_len[OF w pos]] .
  from get_seek_total[OF w t m pos] obtain p' ptr' where
    r: "get_seek l k (Suc m) ptr (nodes l ! link l (Suc m) p) =
          Some (Inr (ptr', nodes l ! link l (Suc m) p'))"
    and pos': "pos_ok l (Suc m) k p' (nodes l ! p') ptr'" by blast
  have e: "get_descend (Suc (Suc m)) l k ptr cur =
           get_descend (Suc m) l k ptr' (nodes l ! link l (Suc m) p')"
    using r pos_ok_link[OF pos, of "Suc m"] jlen
    by (simp add: get_descend.simps(2)[of "Suc m"] getNode_def)
  have "Suc m \<le> maxHeight" using m by simp
  from Suc.IH[OF this pos'] show ?case unfolding e .
qed

lemma stored_unique:
  assumes w: "wellformed l" and t: "total_order (cmp l)"
    and a: "stored_at l k i" and b: "stored_at l k j"
  shows "i = j"
proof -
  have "cmp l (keyAt l i) k = 0" using a to_sym[OF t] by (simp add: stored_at_def)
  moreover have "cmp l k (keyAt l j) = 0" using b by (simp add: stored_at_def)
  ultimately have "cmp l (keyAt l i) (keyAt l j) = 0" using to_eq_trans[OF t] by blast
  moreover have "distinct_keys (cmp l) (members l (length (nodes l)) 0) (keyAt l)"
    using w by (simp add: wellformed_def shape_def)
  moreover have "i \<in> members l (length (nodes l)) 0" "j \<in> members l (length (nodes l)) 0"
    using a b by (simp_all add: stored_at_def members_def)
  ultimately show ?thesis unfolding distinct_keys_def by blast
qed

lemma Get_total:
  assumes w: "wellformed l" and t: "total_order (cmp l)"
  shows "(\<exists>j. stored_at l k j \<and> Get l k = Some (Inr (val (nodes l ! j), True))) \<or>
         ((\<forall>j. \<not> stored_at l k j) \<and> Get l k = Some (Inr (None, False)))"
proof -
  let ?n = "length (nodes l)"
  have hm: "Suc highest = maxHeight" by (simp add: highest_def maxHeight_def)
  have z: "nodes l ! 0 = sentinel" using w by (simp add: wellformed_def shape_def)
  have pos: "pos_ok l (Suc highest) k 0 (nodes l ! 0) (head l)"
    by (simp add: pos_ok_def z sentinel_def nullID_def)
  have "Suc highest \<le> maxHeight" using hm by simp
  from get_descend_total[OF w t this pos, of zeroNode] obtain p' ptr' where
    r: "get_descend (Suc highest) l k (head l) zeroNode = Some (Inr (nodes l ! link l 0 p'))"
    and pos': "pos_ok l 0 k p' (nodes l ! p') ptr'"
    and e: "\<not> 0 < compareKeys l k (keyAt l (link l 0 p'))" by blast
  let ?j = "link l 0 p'"
  have m0: "0 < maxHeight" by (simp add: maxHeight_def)
  have jlen: "?j < ?n" using wf_link_bound[OF w m0 pos_ok_len[OF w pos']] .
  have ck: "compareKeys l k (keyAt l ?j) = (if ?j = 0 then - 1 else cmp l k (keyAt l ?j))"
    using compareKeys_at[OF w jlen] .
  show ?thesis
  proof (cases "compareKeys l k (keyAt l ?j) = 0")
    case True
    then have "stored_at l k ?j" using ck jlen by (auto simp: stored_at_def split: if_splits)
    moreover have "Get l k = Some (Inr (val (nodes l ! ?j), True))"
      using r True by (simp add: Get_def keyAt_def)
    ultimately show ?thesis by blast
  next
    case False
    with e ck have jc: "?j = 0 \<or> cmp l k (keyAt l ?j) < 0" by (auto split: if_splits)
    let ?M = "members l ?n 0"
    have ok: "level_ok (cmp l) ?M (keyAt l) (link l 0)" using w m0 by (simp add: wellformed_def)
    have pin: "p' = 0 \<or> (p' \<in> ?M \<and> cmp l (keyAt l p') k < 0)" using pos' by (simp add: pos_ok_def)
    then have sa: "succ_at (cmp l) ?M (keyAt l) p' ?j" using level_okD[OF ok, of p'] by blast
    have cr: "crumb_ok (cmp l) ?M (keyAt l) k p'" using crumb_from_succ[OF t sa pin jc] .
    have "\<forall>j. \<not> stored_at l k j" using wf_fresh[OF t cr] by (auto simp: stored_at_def)
    moreover have "Get l k = Some (Inr (None, False))"
      using r False by (simp add: Get_def keyAt_def)
    ultimately show ?thesis by blast
  qed
qed

lemma Get_stored:
  assumes w: "wellformed l" and t: "total_order (cmp l)" and s: "stored_at l k j"
  shows "Get l k = Some (Inr (val (nodes l ! j), True))"
proof -
  from Get_total[OF w t, of k] s obtain i where
    i: "stored_at l k i" and g: "Get l k = Some (Inr (val (nodes l ! i), True))" by blast
  have "i = j" using stored_unique[OF w t i s] .
  with g show ?thesis by simp
qed

lemma Get_not_stored:
  assumes w: "wellformed l" and t: "total_order (cmp l)" and s: "\<forall>j. \<not> stored_at l k j"
  shows "Get l k = Some (Inr (None, False))"
  using Get_total[OF w t, of k] s by blast

section \<open>Iteration on a list that satisfies the invariant\<close>

lemma wf_sentinel: "wellformed l \<Longrightarrow> nodes l ! 0 = sentinel"
  by (simp add: wellformed_def shape_def)

lemma wf_length: "wellformed l \<Longrightarrow> 0 < length (nodes l)"
  by (simp add: wellformed_def shape_def)

lemma Next_at:
  assumes w: "wellformed l" and j: "j < length (nodes l)"
  shows "Next \<lparr>curr = nodes l ! j, list = l\<rparr> =
     Inr (kvAt l j, \<lparr>curr = nodes l ! (if j = 0 then 0 else link l 0 j), list = l\<rparr>)"
proof (cases "j = 0")
  case True
  then show ?thesis
    using wf_sentinel[OF w] wf_length[OF w]
    by (simp add: Next_def getNode_def kvAt_def sentinel_def zeroPointer_def)
next
  case False
  have m0: "0 < maxHeight" by (simp add: maxHeight_def)
  have "link l 0 j < length (nodes l)" using wf_link_bound[OF w m0 j] .
  then show ?thesis using False by (simp add: Next_def getNode_def kvAt_def link_def)
qed

lemma iterall_loop_total:
  assumes w: "wellformed l" and t: "total_order (cmp l)"
  shows "a \<in> members l (length (nodes l)) 0 \<Longrightarrow>
    \<exists>js. iterall_loop \<lparr>curr = nodes l ! link l 0 a, list = l\<rparr> (keyAt l a) (val (nodes l ! a)) seen =
            Some (Inr (seen @ map (kvAt l) (a # js))) \<and>
          sorted_wrt (\<lambda>x y. cmp l (keyAt l x) (keyAt l y) < 0) (a # js) \<and>
          set (a # js) = {i \<in> members l (length (nodes l)) 0. \<not> cmp l (keyAt l i) (keyAt l a) < 0}"
proof (induction "card {i \<in> members l (length (nodes l)) 0. beyond (cmp l) (keyAt l) a i}"
    arbitrary: a seen rule: less_induct)
  case less
  let ?n = "length (nodes l)"
  let ?M = "members l ?n 0"
  let ?c = "cmp l"
  let ?K = "keyAt l"
  let ?j = "link l 0 a"
  let ?it = "\<lparr>curr = nodes l ! ?j, list = l\<rparr>"
  have m0: "0 < maxHeight" by (simp add: maxHeight_def)
  have ok: "level_ok ?c ?M ?K (link l 0)" using w m0 by (simp add: wellformed_def)
  have dk: "distinct_keys ?c ?M ?K" using w by (simp add: wellformed_def shape_def)
  have am: "a \<in> ?M" using less.prems .
  then have a0: "a \<noteq> 0" and alen: "a < ?n" by (auto simp: members_def)
  have kn: "?K a \<noteq> None" using wf_key_None[OF w alen] a0 by simp
  have jlen: "?j < ?n" using wf_link_bound[OF w m0 alen] .
  have sa: "succ_at ?c ?M ?K a ?j" using level_okD[OF ok, of a] am by simp
  have nx: "Next ?it = Inr (kvAt l ?j, \<lparr>curr = nodes l ! (if ?j = 0 then 0 else link l 0 ?j), list = l\<rparr>)"
    using Next_at[OF w jlen] .
  have eqa: "i = a" if "i \<in> ?M" "\<not> ?c (?K i) (?K a) < 0" "\<not> beyond ?c ?K a i" for i
  proof -
    from that(3) a0 have "\<not> ?c (?K a) (?K i) < 0" by (simp add: beyond_def)
    with that(2) have "?c (?K i) (?K a) = 0"
      using to_not_lt[OF t, of "?K a" "?K i"] by simp
    with dk that(1) am show ?thesis by (auto simp: distinct_keys_def)
  qed
  have refl_a: "\<not> ?c (?K a) (?K a) < 0" using to_refl[OF t] by simp
  show ?case
  proof (cases "?j = 0")
    case True
    have k0: "kvAt l 0 = (None, None)" using wf_sentinel[OF w] by (simp add: kvAt_def sentinel_def)
    have "iterall_loop ?it (?K a) (val (nodes l ! a)) seen =
          iterall_loop \<lparr>curr = nodes l ! 0, list = l\<rparr> None None (seen @ [(?K a, val (nodes l ! a))])"
      using kn nx True k0 by (subst iterall_loop.simps) simp
    also have "\<dots> = Some (Inr (seen @ [(?K a, val (nodes l ! a))]))"
      by (subst iterall_loop.simps) simp
    finally have r: "iterall_loop ?it (?K a) (val (nodes l ! a)) seen =
        Some (Inr (seen @ map (kvAt l) (a # [])))" by (simp add: kvAt_def keyAt_def)
    have nb: "\<And>i. i \<in> ?M \<Longrightarrow> \<not> beyond ?c ?K a i" using sa True by (auto dest: succ_at0D)
    have "set (a # []) = {i \<in> ?M. \<not> ?c (?K i) (?K a) < 0}"
      using am refl_a eqa nb by auto
    with r show ?thesis by (intro exI[of _ "[]"]) simp
  next
    case False
    from succ_atD[OF sa False] have jm: "?j \<in> ?M" and bj: "beyond ?c ?K a ?j"
      and mn: "\<forall>i\<in>?M. beyond ?c ?K a i \<longrightarrow> ?c (?K ?j) (?K i) \<le> 0" by auto
    have lt: "?c (?K a) (?K ?j) < 0" using bj a0 by (simp add: beyond_def)
    have dec: "card {i \<in> ?M. beyond ?c ?K ?j i} < card {i \<in> ?M. beyond ?c ?K a i}"
      using seek_decr[OF t _ ok, of a] am False by simp
    from less.hyps[OF dec jm, of "seen @ [(?K a, val (nodes l ! a))]"] obtain js where
      r: "iterall_loop \<lparr>curr = nodes l ! link l 0 ?j, list = l\<rparr> (?K ?j) (val (nodes l ! ?j))
            (seen @ [(?K a, val (nodes l ! a))]) =
          Some (Inr ((seen @ [(?K a, val (nodes l ! a))]) @ map (kvAt l) (?j # js)))"
      and so: "sorted_wrt (\<lambda>x y. ?c (?K x) (?K y) < 0) (?j # js)"
      and st: "set (?j # js) = {i \<in> ?M. \<not> ?c (?K i) (?K ?j) < 0}" by blast
    have "iterall_loop ?it (?K a) (val (nodes l ! a)) seen =
          iterall_loop \<lparr>curr = nodes l ! link l 0 ?j, list = l\<rparr> (?K ?j) (val (nodes l ! ?j))
            (seen @ [(?K a, val (nodes l ! a))])"
      using kn nx False by (subst iterall_loop.simps) (simp add: kvAt_def keyAt_def)
    with r have r': "iterall_loop ?it (?K a) (val (nodes l ! a)) seen =
          Some (Inr (seen @ map (kvAt l) (a # ?j # js)))"
      by (simp add: kvAt_def keyAt_def)
    have above: "?c (?K a) (?K x) < 0" if "x \<in> set (?j # js)" for x
    proof -
      from that st have "\<not> ?c (?K x) (?K ?j) < 0" by blast
      then have "?c (?K ?j) (?K x) \<le> 0" using to_not_lt[OF t] by simp
      with lt show ?thesis using to_lt_le_trans[OF t] by blast
    qed
    have so': "sorted_wrt (\<lambda>x y. ?c (?K x) (?K y) < 0) (a # ?j # js)"
      using so above by (simp del: set_simps)
    have st': "set (a # ?j # js) = {i \<in> ?M. \<not> ?c (?K i) (?K a) < 0}"
    proof (intro set_eqI iffI)
      fix x assume "x \<in> set (a # ?j # js)"
      then consider "x = a" | "x \<in> set (?j # js)" by auto
      then show "x \<in> {i \<in> ?M. \<not> ?c (?K i) (?K a) < 0}"
      proof cases
        case 1 then show ?thesis using am refl_a by simp
      next
        case 2
        then have "x \<in> ?M" using st by blast
        moreover have "\<not> ?c (?K x) (?K a) < 0" using above[OF 2] to_flip[OF t, of "?K x" "?K a"] by simp
        ultimately show ?thesis by simp
      qed
    next
      fix x assume "x \<in> {i \<in> ?M. \<not> ?c (?K i) (?K a) < 0}"
      then have xm: "x \<in> ?M" and xa: "\<not> ?c (?K x) (?K a) < 0" by auto
      show "x \<in> set (a # ?j # js)"
      proof (cases "beyond ?c ?K a x")
        case True
        with mn xm have "?c (?K ?j) (?K x) \<le> 0" by blast
        then have "\<not> ?c (?K x) (?K ?j) < 0" using to_not_lt[OF t] by simp
        with xm st show ?thesis by auto
      next
        case False
        from eqa[OF xm xa False] show ?thesis by simp
      qed
    qed
    from r' so' st' show ?thesis by blast
  qed
qed

lemma members_0: "wellformed l \<Longrightarrow> members l n 0 = {i. 0 < i \<and> i < n}"
  by (auto simp: members_def)

lemma Iter_at:
  assumes w: "wellformed l"
  shows "link l 0 0 < length (nodes l)"
    and "Iter l = Inr \<lparr>curr = nodes l ! link l 0 0, list = l\<rparr>"
proof -
  have m0: "0 < maxHeight" by (simp add: maxHeight_def)
  show f: "link l 0 0 < length (nodes l)" using wf_link_bound[OF w m0 wf_length[OF w]] .
  then show "Iter l = Inr \<lparr>curr = nodes l ! link l 0 0, list = l\<rparr>"
    by (simp add: Iter_def firstNode_def getNode_def link_def)
qed

lemma IterAll_total:
  assumes w: "wellformed l" and t: "total_order (cmp l)"
  shows "\<exists>js. IterAll l = Some (Inr (map (kvAt l) js)) \<and>
          sorted_wrt (\<lambda>x y. cmp l (keyAt l x) (keyAt l y) < 0) js \<and>
          set js = {i. 0 < i \<and> i < length (nodes l)}"
proof -
  let ?n = "length (nodes l)"
  let ?M = "members l ?n 0"
  let ?f = "link l 0 0"
  have m0: "0 < maxHeight" by (simp add: maxHeight_def)
  have ok: "level_ok (cmp l) ?M (keyAt l) (link l 0)" using w m0 by (simp add: wellformed_def)
  have sa: "succ_at (cmp l) ?M (keyAt l) 0 ?f" using level_okD[OF ok, of 0] by simp
  note it = Iter_at[OF w]
  have nx: "Next \<lparr>curr = nodes l ! ?f, list = l\<rparr> =
      Inr (kvAt l ?f, \<lparr>curr = nodes l ! (if ?f = 0 then 0 else link l 0 ?f), list = l\<rparr>)"
    using Next_at[OF w it(1)] .
  show ?thesis
  proof (cases "?f = 0")
    case True
    have k0: "kvAt l 0 = (None, None)" using wf_sentinel[OF w] by (simp add: kvAt_def sentinel_def)
    have "IterAll l = iterall_loop \<lparr>curr = nodes l ! 0, list = l\<rparr> None None []"
      using it(2) nx True k0 by (simp add: IterAll_def)
    also have "\<dots> = Some (Inr [])" by (subst iterall_loop.simps) simp
    finally have r: "IterAll l = Some (Inr (map (kvAt l) []))" by simp
    have "?M = {}" using sa True by (auto simp: beyond_def dest: succ_at0D)
    then have "set [] = {i. 0 < i \<and> i < ?n}" using members_0[OF w, of ?n] by simp
    with r show ?thesis by (intro exI[of _ "[]"]) simp
  next
    case False
    from succ_atD[OF sa False] have fm: "?f \<in> ?M"
      and mn: "\<forall>i\<in>?M. beyond (cmp l) (keyAt l) 0 i \<longrightarrow> cmp l (keyAt l ?f) (keyAt l i) \<le> 0" by auto
    from iterall_loop_total[OF w t fm, of "[]"] obtain js where
      r: "iterall_loop \<lparr>curr = nodes l ! link l 0 ?f, list = l\<rparr> (keyAt l ?f) (val (nodes l ! ?f)) [] =
            Some (Inr ([] @ map (kvAt l) (?f # js)))"
      and so: "sorted_wrt (\<lambda>x y. cmp l (keyAt l x) (keyAt l y) < 0) (?f # js)"
      and st: "set (?f # js) = {i \<in> ?M. \<not> cmp l (keyAt l i) (keyAt l ?f) < 0}" by blast
    have "IterAll l = Some (Inr (map (kvAt l) (?f # js)))"
      using it(2) nx False r by (simp add: IterAll_def kvAt_def keyAt_def)
    moreover have "set (?f # js) = {i. 0 < i \<and> i < ?n}"
    proof -
      have "\<not> cmp l (keyAt l i) (keyAt l ?f) < 0" if "i \<in> ?M" for i
        using mn that to_not_lt[OF t, of "keyAt l i" "keyAt l ?f"] by (simp add: beyond_def)
      then have "{i \<in> ?M. \<not> cmp l (keyAt l i) (keyAt l ?f) < 0} = ?M" by blast
      with st members_0[OF w, of ?n] show ?thesis by simp
    qed
    ultimately show ?thesis using so by blast
  qed
qed

lemma sorted_wrt_irrefl_distinct:
  "sorted_wrt R xs \<Longrightarrow> (\<And>x. \<not> R x x) \<Longrightarrow> distinct xs"
  by (induction xs) auto

lemma IterAll_sorted:
  assumes w: "wellformed l" and t: "total_order (cmp l)"
  shows "\<exists>kvs. IterAll l = Some (Inr kvs) \<and>
          sorted_wrt (\<lambda>a b. cmp l a b < 0) (map fst kvs) \<and>
          int (length kvs) = Count l \<and>
          set kvs = {(key n, val n) | n. n \<in> set (tl (nodes l))}"
proof -
  let ?n = "length (nodes l)"
  from IterAll_total[OF w t] obtain js where
    r: "IterAll l = Some (Inr (map (kvAt l) js))"
    and so: "sorted_wrt (\<lambda>x y. cmp l (keyAt l x) (keyAt l y) < 0) js"
    and st: "set js = {i. 0 < i \<and> i < ?n}" by blast
  have mf: "map fst (map (kvAt l) js) = map (keyAt l) js" by (simp add: kvAt_def keyAt_def)
  have s1: "sorted_wrt (\<lambda>a b. cmp l a b < 0) (map fst (map (kvAt l) js))"
    unfolding mf using so by (simp add: sorted_wrt_map)
  have d: "distinct js"
    using sorted_wrt_irrefl_distinct[OF so] to_refl[OF t] by simp
  have "{i. 0 < i \<and> i < ?n} = {1..<?n}" by auto
  then have "card (set js) = ?n - 1" using st by simp
  then have "length js = ?n - 1" using distinct_card[OF d] by simp
  then have s2: "int (length (map (kvAt l) js)) = Count l"
    using wf_length[OF w] by (cases "nodes l") (simp_all add: Count_def)
  have s3: "set (map (kvAt l) js) = {(key n, val n) | n. n \<in> set (tl (nodes l))}"
  proof -
    have "set (tl (nodes l)) = {nodes l ! i | i. 0 < i \<and> i < ?n}"
    proof (intro set_eqI iffI)
      fix x assume "x \<in> set (tl (nodes l))"
      then obtain i where "i < length (tl (nodes l))" "x = tl (nodes l) ! i"
        by (auto simp: in_set_conv_nth)
      then have "x = nodes l ! Suc i" "Suc i < ?n" by (auto simp: nth_tl)
      then show "x \<in> {nodes l ! i | i. 0 < i \<and> i < ?n}" by blast
    next
      fix x assume "x \<in> {nodes l ! i | i. 0 < i \<and> i < ?n}"
      then obtain i where i: "0 < i" "i < ?n" "x = nodes l ! i" by blast
      then have "x = tl (nodes l) ! (i - 1)" "i - 1 < length (tl (nodes l))"
        by (auto simp: nth_tl)
      then show "x \<in> set (tl (nodes l))" by (auto simp: in_set_conv_nth)
    qed
    then show ?thesis unfolding set_map st by (auto simp: kvAt_def)
  qed
  from r s1 s2 s3 show ?thesis by blast
qed

section \<open>Runs from a new list\<close>

lemma wf_New: "wellformed (NewSkipList ns c)"
proof -
  let ?l = "NewSkipList ns c"
  have n: "nodes ?l = [sentinel]" "head ?l = zeroPointer" "cmp ?l = c"
    by (simp_all add: NewSkipList_def sentinel_def)
  have m: "members ?l (length (nodes ?l)) h = {}" for h by (auto simp: members_def n)
  have dk: "distinct_keys (cmp ?l) (members ?l (length (nodes ?l)) 0) (keyAt ?l)"
    unfolding m by (simp add: distinct_keys_def)
  have sh: "shape ?l"
    unfolding shape_def using dk
    by (simp add: n maxCount_def sentinel_def nullID_def zeroPointer_def)
  have "level_ok c (members ?l (length (nodes ?l)) h) (keyAt ?l) (link ?l h)" for h
    unfolding m by (simp add: level_ok_def succ_at_def link_def n zeroPointer_def)
  with sh show ?thesis by (simp add: wellformed_def n(3))
qed

lemma Put_Done_guards: "Put l k v = Some (Done l') \<Longrightarrow> k \<noteq> None \<and> \<not> Full l"
  by (auto simp: Put_def split: if_splits)

lemma Put_Done_wf:
  assumes w: "wellformed l" and t: "total_order (cmp l)" and p: "Put l k v = Some (Done l')"
  shows "wellformed l'" and "cmp l' = cmp l"
    and "(\<exists>j. stored_at l k j \<and> l' = put_update l j v) \<or>
         ((\<forall>j. \<not> stored_at l k j) \<and> put_insert l k v l')"
proof -
  from Put_Done_guards[OF p] have g: "k \<noteq> None" "\<not> Full l" by auto
  from Put_total[OF w t g, of v] p
  show "wellformed l'" and "cmp l' = cmp l"
    and "(\<exists>j. stored_at l k j \<and> l' = put_update l j v) \<or>
         ((\<forall>j. \<not> stored_at l k j) \<and> put_insert l k v l')"
    by auto
qed

lemma run_puts_wf:
  "wellformed l0 \<Longrightarrow> total_order (cmp l0) \<Longrightarrow> run_puts l0 ops = Some (Done l) \<Longrightarrow>
   wellformed l \<and> cmp l = cmp l0"
proof (induction ops arbitrary: l0)
  case Nil
  then show ?case by simp
next
  case (Cons a ops)
  obtain k v where a: "a = (k, v)" by (cases a)
  from Cons.prems(3) obtain l1 where p: "Put l0 k v = Some (Done l1)"
    and r: "run_puts l1 ops = Some (Done l)"
    by (auto simp: a split: option.splits outcome.splits)
  note s = Put_Done_wf[OF Cons.prems(1,2) p]
  have "total_order (cmp l1)" using s(2) Cons.prems(2) by simp
  from Cons.IH[OF s(1) this r] s(2) show ?case by simp
qed

lemma reach_wf:
  assumes "total_order c" and "run_puts (NewSkipList ns c) ops = Some (Done l)"
  shows "wellformed l" and "cmp l = c" and "total_order (cmp l)"
proof -
  have c: "cmp (NewSkipList ns c) = c" by (simp add: NewSkipList_def)
  from run_puts_wf[OF wf_New, of ns c ops l] assms c
  show "wellformed l" and "cmp l = c" by simp_all
  then show "total_order (cmp l)" using assms(1) by simp
qed

lemma last_put_snoc:
  "last_put c (ops @ [(k', v')]) k = (if c k k' = 0 then Some v' else last_put c ops k)"
  by (induction ops) (auto split: option.splits)

lemma last_put_None: "(\<forall>(k', v')\<in>set ops. c k k' \<noteq> 0) \<Longrightarrow> last_put c ops k = None"
  by (induction ops) auto

lemma last_put_append_None: "last_put c after k = None \<Longrightarrow> last_put c (before @ after) k = last_put c before k"
  by (induction before) auto

lemma last_put_Some_iff: "(last_put c ops k = None) = (\<forall>(k', v')\<in>set ops. c k k' \<noteq> 0)"
  by (induction ops) (auto split: option.splits)

lemma put_update_stored:
  "stored_at (put_update l j v) k i = stored_at l k i"
  by (cases "j < length (nodes l)")
     (auto simp: stored_at_def put_update_def keyAt_def nth_list_update)

lemma put_update_val:
  "j < length (nodes l) \<Longrightarrow>
   val (nodes (put_update l j v) ! i) = (if i = j then v else val (nodes l ! i))"
  by (simp add: put_update_def nth_list_update)

lemma put_insert_stored:
  assumes e: "put_insert l k' v' l'" and c: "cmp l' = cmp l" and n: "0 < length (nodes l)"
  shows "stored_at l' k i = ((i < length (nodes l) \<and> stored_at l k i) \<or>
                             (i = length (nodes l) \<and> cmp l k k' = 0))"
proof -
  have len: "length (nodes l') = Suc (length (nodes l))" using e by (simp add: put_insert_def)
  have old: "keyAt l' x = keyAt l x" if "x < length (nodes l)" for x
    using e that by (simp add: put_insert_def keyAt_def)
  have new: "keyAt l' (length (nodes l)) = k'" using e by (simp add: put_insert_def keyAt_def)
  show ?thesis
    using len old new c n by (auto simp: stored_at_def less_Suc_eq)
qed

lemma Put_contents:
  assumes w: "wellformed l" and t: "total_order (cmp l)" and p: "Put l k' v' = Some (Done l')"
    and co: "contents_ok l hist"
  shows "contents_ok l' (hist @ [(k', v')])"
proof -
  note s = Put_Done_wf[OF w t p]
  let ?c = "cmp l"
  have goal: "case last_put ?c (hist @ [(k', v')]) k of
        None \<Rightarrow> (\<forall>j. \<not> stored_at l' k j)
      | Some v \<Rightarrow> (\<exists>j. stored_at l' k j \<and> val (nodes l' ! j) = v)" for k
  proof -
    have old: "case last_put ?c hist k of
        None \<Rightarrow> (\<forall>j. \<not> stored_at l k j)
      | Some v \<Rightarrow> (\<exists>j. stored_at l k j \<and> val (nodes l ! j) = v)"
      using co unfolding contents_ok_def by blast
    from s(3) show ?thesis
    proof
      assume "\<exists>j. stored_at l k' j \<and> l' = put_update l j v'"
      then obtain j where j: "stored_at l k' j" and l': "l' = put_update l j v'" by blast
      have jl: "j < length (nodes l)" using j by (simp add: stored_at_def)
      show ?thesis
      proof (cases "?c k k' = 0")
        case True
        have "?c k (keyAt l j) = 0" using to_eq_trans[OF t True] j by (simp add: stored_at_def)
        then have "stored_at l k j" using j by (simp add: stored_at_def)
        then have "stored_at l' k j" by (simp add: l' put_update_stored)
        moreover have "val (nodes l' ! j) = v'" using jl by (simp add: l' put_update_val)
        ultimately show ?thesis using True by (auto simp: last_put_snoc)
      next
        case False
        have ne: "i \<noteq> j" if "stored_at l k i" for i
        proof
          assume "i = j"
          with that have "?c k (keyAt l j) = 0" by (simp add: stored_at_def)
          moreover have "?c (keyAt l j) k' = 0" using j to_sym[OF t] by (simp add: stored_at_def)
          ultimately have "?c k k' = 0" using to_eq_trans[OF t] by blast
          with False show False by simp
        qed
        show ?thesis
        proof (cases "last_put ?c hist k")
          case None
          with old False show ?thesis by (simp add: last_put_snoc l' put_update_stored)
        next
          case (Some v)
          with old obtain i where i: "stored_at l k i" "val (nodes l ! i) = v" by auto
          then have "stored_at l' k i \<and> val (nodes l' ! i) = v"
            using ne[OF i(1)] jl by (simp add: l' put_update_stored put_update_val)
          with Some False show ?thesis by (auto simp: last_put_snoc)
        qed
      qed
    next
      assume "(\<forall>j. \<not> stored_at l k' j) \<and> put_insert l k' v' l'"
      then have e: "put_insert l k' v' l'" by simp
      let ?n = "length (nodes l)"
      note st = put_insert_stored[OF e s(2) wf_length[OF w]]
      have vold: "val (nodes l' ! x) = val (nodes l ! x)" if "x < ?n" for x
        using e that by (simp add: put_insert_def)
      have vnew: "val (nodes l' ! ?n) = v'" using e by (simp add: put_insert_def)
      show ?thesis
      proof (cases "?c k k' = 0")
        case True
        then have "stored_at l' k ?n" by (simp add: st)
        with vnew True show ?thesis by (auto simp: last_put_snoc)
      next
        case False
        show ?thesis
        proof (cases "last_put ?c hist k")
          case None
          with old False show ?thesis by (simp add: last_put_snoc st)
        next
          case (Some v)
          with old obtain i where i: "stored_at l k i" "val (nodes l ! i) = v" by auto
          then have il: "i < ?n" by (simp add: stored_at_def)
          have "stored_at l' k i \<and> val (nodes l' ! i) = v" using i il vold by (simp add: st)
          with Some False show ?thesis by (auto simp: last_put_snoc)
        qed
      qed
    qed
  qed
  show ?thesis unfolding contents_ok_def s(2) using goal by blast
qed

lemma run_puts_contents:
  "wellformed l0 \<Longrightarrow> total_order (cmp l0) \<Longrightarrow> contents_ok l0 hist \<Longrightarrow>
   run_puts l0 ops = Some (Done l) \<Longrightarrow> contents_ok l (hist @ ops)"
proof (induction ops arbitrary: l0 hist)
  case Nil
  then show ?case by simp
next
  case (Cons a ops)
  obtain k v where a: "a = (k, v)" by (cases a)
  from Cons.prems(4) obtain l1 where p: "Put l0 k v = Some (Done l1)"
    and r: "run_puts l1 ops = Some (Done l)"
    by (auto simp: a split: option.splits outcome.splits)
  note s = Put_Done_wf[OF Cons.prems(1,2) p]
  have t1: "total_order (cmp l1)" using s(2) Cons.prems(2) by simp
  have c1: "contents_ok l1 (hist @ [(k, v)])" using Put_contents[OF Cons.prems(1,2) p Cons.prems(3)] .
  from Cons.IH[OF s(1) t1 c1 r] show ?case by (simp add: a)
qed

lemma reach_contents:
  assumes "total_order c" and "run_puts (NewSkipList ns c) ops = Some (Done l)"
  shows "contents_ok l ops"
proof -
  have c: "cmp (NewSkipList ns c) = c" by (simp add: NewSkipList_def)
  have "contents_ok (NewSkipList ns c) []"
    by (auto simp: contents_ok_def stored_at_def NewSkipList_def)
  from run_puts_contents[OF wf_New _ this, of ops l] assms c show ?thesis by simp
qed

lemma rollHeight_snd: "snd (rollHeight r) = (\<lambda>m. r (Suc m))"
  by (simp add: rollHeight_def Int63_def)

lemma heights_New: "heights_ok (ns 0) (NewSkipList ns c)"
  by (simp add: heights_ok_def NewSkipList_def)

lemma Put_heights:
  assumes w: "wellformed l" and t: "total_order (cmp l)" and p: "Put l k v = Some (Done l')"
    and h: "heights_ok r l"
  shows "heights_ok r l'"
proof -
  note s = Put_Done_wf[OF w t p]
  let ?n = "length (nodes l)"
  from s(3) show ?thesis
  proof
    assume "\<exists>j. stored_at l k j \<and> l' = put_update l j v"
    then obtain j where j: "stored_at l k j" and l': "l' = put_update l j v" by blast
    have jl: "j < ?n" using j by (simp add: stored_at_def)
    have "height (nodes l' ! i) = height (nodes l ! i)" for i
      using jl by (simp add: l' put_update_def nth_list_update)
    moreover have "length (nodes l') = ?n" "src l' = src l" by (simp_all add: l' put_update_def)
    ultimately show ?thesis using h by (simp add: heights_ok_def)
  next
    assume "(\<forall>j. \<not> stored_at l k j) \<and> put_insert l k v l'"
    then have e: "put_insert l k v l'" by simp
    have n0: "0 < ?n" using wf_length[OF w] .
    have len: "length (nodes l') = Suc ?n" using e by (simp add: put_insert_def)
    have old: "height (nodes l' ! i) = height (nodes l ! i)" if "i < ?n" for i
      using e that by (simp add: put_insert_def)
    have sl: "src l = (\<lambda>m. r (m + (?n - 1)))" using h by (simp add: heights_ok_def)
    have new: "height (nodes l' ! ?n) = fst (rollHeight (\<lambda>m. r (m + (?n - 1))))"
      using e sl by (simp add: put_insert_def)
    have "src l' = snd (rollHeight (src l))" using e by (simp add: put_insert_def)
    then have s': "src l' = (\<lambda>m. r (m + (length (nodes l') - 1)))"
      using n0 by (simp add: rollHeight_snd sl len)
    have "height (nodes l' ! i) = fst (rollHeight (\<lambda>m. r (m + (i - 1))))"
      if i: "0 < i" "i < length (nodes l')" for i
    proof (cases "i < ?n")
      case True
      then show ?thesis using old[OF True] h i(1) by (simp add: heights_ok_def)
    next
      case False
      with i len have "i = ?n" by simp
      then show ?thesis using new by simp
    qed
    with s' show ?thesis by (simp add: heights_ok_def)
  qed
qed

lemma run_puts_heights:
  "wellformed l0 \<Longrightarrow> total_order (cmp l0) \<Longrightarrow> heights_ok r l0 \<Longrightarrow>
   run_puts l0 ops = Some (Done l) \<Longrightarrow> heights_ok r l"
proof (induction ops arbitrary: l0)
  case Nil
  then show ?case by simp
next
  case (Cons a ops)
  obtain k v where a: "a = (k, v)" by (cases a)
  from Cons.prems(4) obtain l1 where p: "Put l0 k v = Some (Done l1)"
    and r: "run_puts l1 ops = Some (Done l)"
    by (auto simp: a split: option.splits outcome.splits)
  note s = Put_Done_wf[OF Cons.prems(1,2) p]
  have t1: "total_order (cmp l1)" using s(2) Cons.prems(2) by simp
  from Cons.IH[OF s(1) t1 Put_heights[OF Cons.prems(1,2) p Cons.prems(3)] r] show ?case .
qed

lemma reach_heights:
  assumes "total_order c" and "run_puts (NewSkipList ns c) ops = Some (Done l)"
  shows "heights_ok (ns 0) l"
proof -
  have c: "cmp (NewSkipList ns c) = c" by (simp add: NewSkipList_def)
  from run_puts_heights[OF wf_New _ heights_New, of ns c ops l] assms c show ?thesis by simp
qed

section \<open>The byte-lexicographic comparator is a total order\<close>

lemma lexCompare_refl: "lexCompare a a = 0"
  by (induction a) auto

lemma lexCompare_flip: "(lexCompare a b < 0) = (0 < lexCompare b a)"
  by (induction a b rule: lexCompare.induct) auto

lemma lexCompare_trans:
  "lexCompare a b \<le> 0 \<Longrightarrow> lexCompare b d \<le> 0 \<Longrightarrow> lexCompare a d \<le> 0"
proof (induction a b arbitrary: d rule: lexCompare.induct)
  case 1
  then show ?case by simp
next
  case (2 y ys)
  then show ?case by (cases d) auto
next
  case (3 x xs)
  then show ?case by simp
next
  case (4 x xs y ys)
  show ?case
  proof (cases d)
    case Nil
    with 4 show ?thesis by (auto split: if_splits)
  next
    case (Cons z zs)
    with 4 show ?thesis by (auto split: if_splits)
  qed
qed

lemma total_order_bytesCompare: "total_order bytesCompare"
  unfolding total_order_def bytesCompare_def
  using lexCompare_refl lexCompare_flip lexCompare_trans by blast

section \<open>The iterator, the bounds and the panics\<close>

lemma next_n_at:
  assumes w: "wellformed l"
  shows "j < length (nodes l) \<Longrightarrow>
    \<exists>j'<length (nodes l). next_n n \<lparr>curr = nodes l ! j, list = l\<rparr> =
       Inr \<lparr>curr = nodes l ! j', list = l\<rparr>"
proof (induction n arbitrary: j)
  case 0
  then show ?case by auto
next
  case (Suc n)
  have m0: "0 < maxHeight" by (simp add: maxHeight_def)
  let ?j = "if j = 0 then 0 else link l 0 j"
  have jl: "?j < length (nodes l)" using wf_link_bound[OF w m0 Suc.prems] wf_length[OF w] by simp
  from Suc.IH[OF jl] show ?case using Next_at[OF w Suc.prems] by simp
qed

lemma next_n_end:
  assumes w: "wellformed l"
  shows "next_n m \<lparr>curr = nodes l ! 0, list = l\<rparr> = Inr \<lparr>curr = nodes l ! 0, list = l\<rparr>"
  using Next_at[OF w wf_length[OF w]] by (induction m) simp_all

lemma iterator_total:
  assumes w: "wellformed l"
  shows "\<exists>it0. Iter l = Inr it0 \<and>
     (\<forall>n. \<exists>it kv it'. next_n n it0 = Inr it \<and> Next it = Inr (kv, it') \<and>
        (fst kv = None \<longrightarrow>
           kv = (None, None) \<and> Next it' = Inr ((None, None), it') \<and>
           (\<forall>m. next_n m it' = Inr it')))"
proof -
  note i = Iter_at[OF w]
  let ?it0 = "\<lparr>curr = nodes l ! link l 0 0, list = l\<rparr>"
  have k0: "kvAt l 0 = (None, None)" using wf_sentinel[OF w] by (simp add: kvAt_def sentinel_def)
  have "\<exists>it kv it'. next_n n ?it0 = Inr it \<and> Next it = Inr (kv, it') \<and>
        (fst kv = None \<longrightarrow>
           kv = (None, None) \<and> Next it' = Inr ((None, None), it') \<and>
           (\<forall>m. next_n m it' = Inr it'))" for n
  proof -
    from next_n_at[OF w i(1), of n] obtain j where j: "j < length (nodes l)"
      and r: "next_n n ?it0 = Inr \<lparr>curr = nodes l ! j, list = l\<rparr>" by blast
    let ?it' = "\<lparr>curr = nodes l ! (if j = 0 then 0 else link l 0 j), list = l\<rparr>"
    have nx: "Next \<lparr>curr = nodes l ! j, list = l\<rparr> = Inr (kvAt l j, ?it')"
      using Next_at[OF w j] .
    have e: "kvAt l j = (None, None) \<and> Next ?it' = Inr ((None, None), ?it') \<and>
           (\<forall>m. next_n m ?it' = Inr ?it')" if "fst (kvAt l j) = None"
    proof -
      from that have "keyAt l j = None" by (simp add: kvAt_def keyAt_def)
      then have j0: "j = 0" using wf_key_None[OF w j] by simp
      then show ?thesis
        using k0 Next_at[OF w wf_length[OF w]] next_n_end[OF w] by simp
    qed
    show ?thesis
      by (rule exI[of _ "\<lparr>curr = nodes l ! j, list = l\<rparr>"], rule exI[of _ "kvAt l j"],
          rule exI[of _ ?it']) (use r nx e in blast)
  qed
  with i(2) show ?thesis by blast
qed

lemma wf_bounds:
  assumes w: "wellformed l"
  shows "\<forall>h<maxHeight. unat (head l h) < length (nodes l)"
    and "\<forall>i<length (nodes l). \<forall>h<maxHeight. unat (next (nodes l ! i) h) < length (nodes l)"
  using w by (simp_all add: wellformed_def shape_def)

lemma Put_never_out_of_range:
  assumes w: "wellformed l" and t: "total_order (cmp l)"
  shows "Put l k v = Some (Panic KeyNil l) \<or> Put l k v = Some (Panic NoCapacity l) \<or>
         (\<exists>l'. Put l k v = Some (Done l'))"
proof (cases "k = None")
  case True
  then show ?thesis by (simp add: Put_def)
next
  case kn: False
  show ?thesis
  proof (cases "Full l")
    case True
    with kn show ?thesis by (simp add: Put_def)
  next
    case False
    from Put_total[OF w t kn False, of v] show ?thesis by blast
  qed
qed

lemma run_puts_total:
  "wellformed l0 \<Longrightarrow> total_order (cmp l0) \<Longrightarrow>
   \<exists>r. run_puts l0 ops = Some r \<and> wellformed (state_of r) \<and> cmp (state_of r) = cmp l0 \<and>
       (\<forall>e l'. r = Panic e l' \<longrightarrow> e = KeyNil \<or> e = NoCapacity)"
proof (induction ops arbitrary: l0)
  case Nil
  then show ?case by simp
next
  case (Cons a ops)
  obtain k v where a: "a = (k, v)" by (cases a)
  from Put_never_out_of_range[OF Cons.prems, of k v]
  consider "Put l0 k v = Some (Panic KeyNil l0)" | "Put l0 k v = Some (Panic NoCapacity l0)"
    | l1 where "Put l0 k v = Some (Done l1)" by blast
  then show ?case
  proof cases
    case 1
    then have "run_puts l0 (a # ops) = Some (Panic KeyNil l0)" by (simp add: a)
    with Cons.prems show ?thesis by simp
  next
    case 2
    then have "run_puts l0 (a # ops) = Some (Panic NoCapacity l0)" by (simp add: a)
    with Cons.prems show ?thesis by simp
  next
    case 3
    note s = Put_Done_wf[OF Cons.prems 3]
    have t1: "total_order (cmp l1)" using s(2) Cons.prems(2) by simp
    have "run_puts l0 (a # ops) = run_puts l1 ops" using 3 by (simp add: a)
    with Cons.IH[OF s(1) t1] s(2) show ?thesis by simp
  qed
qed

lemma reach_total:
  assumes "total_order c"
  shows "\<exists>r. run_puts (NewSkipList ns c) ops = Some r \<and> wellformed (state_of r) \<and>
           cmp (state_of r) = c \<and> (\<forall>e l'. r = Panic e l' \<longrightarrow> e = KeyNil \<or> e = NoCapacity)"
proof -
  have c: "cmp (NewSkipList ns c) = c" by (simp add: NewSkipList_def)
  from run_puts_total[OF wf_New, of ns c ops] assms c show ?thesis by simp
qed

section \<open>A run that fills the list\<close>

lemma lexCompare_replicate:
  "lexCompare (replicate a x) (replicate b x) = (if a < b then - 1 else if a = b then 0 else 1)"
proof (induction a arbitrary: b)
  case 0
  then show ?case by (cases b) simp_all
next
  case (Suc a)
  then show ?case by (cases b) simp_all
qed

lemma desc_key_less:
  "n < 4294967296 \<Longrightarrow> bytesCompare (desc_key (Suc n)) (desc_key n) = - 1"
  by (simp add: bytesCompare_def desc_key_def lexCompare_replicate)

lemma desc_list_simps:
  "head (desc_list n) = zeroPointer(0 := of_nat n)"
  "cmp (desc_list n) = bytesCompare"
  "src (desc_list n) = zeroSource 0"
  "length (nodes (desc_list n)) = Suc n"
  by (simp_all add: desc_list_def)

lemma desc_list_nth:
  "i \<le> n \<Longrightarrow> nodes (desc_list n) ! i =
     (if i = 0 then sentinel
      else desc_node i)"
  by (cases i) (simp_all add: desc_list_def del: upt_Suc)

lemma desc_unat: "n < 4294967296 \<Longrightarrow> unat (of_nat n :: 32 word) = n"
  by (simp add: unat_of_nat)

lemma desc_getNode_head:
  "n < 4294967296 \<Longrightarrow> getNode (desc_list n) (of_nat n) = Inr (nodes (desc_list n) ! n)"
  by (simp add: getNode_def desc_unat desc_list_simps)

lemma desc_getNode_0:
  "getNode (desc_list n) 0 = Inr sentinel"
  by (simp add: getNode_def desc_list_def)

lemma put_seek_stop:
  "\<not> 0 < compareKeys l k (key c) \<Longrightarrow> put_seek l k h p nx c = Some (Inr (p, nx, c))"
  by (subst put_seek.simps) simp

lemma desc_compare_head:
  "n < 4294967296 \<Longrightarrow> compareKeys (desc_list n) (desc_key (Suc n)) (key (nodes (desc_list n) ! n)) = - 1"
proof (cases "n = 0")
  case True
  then show ?thesis by (simp add: desc_list_nth compareKeys_def sentinel_def)
next
  case False
  assume "n < 4294967296"
  from desc_key_less[OF this] False show ?thesis
    by (simp add: desc_list_nth compareKeys_def desc_list_simps desc_node_def)
qed

lemma desc_descend:
  assumes n: "n < 4294967296"
  shows "\<exists>bc. put_descend (Suc highest) (desc_list n) (desc_key (Suc n)) v zeroNode
           (head (desc_list n)) zeroPointer = Some (Inr (Crumbs bc))"
proof -
  let ?l = "desc_list n"
  let ?k = "desc_key (Suc n)"
  have s0: "\<And>h p nx. put_seek ?l ?k h p nx sentinel = Some (Inr (p, nx, sentinel))"
    by (rule put_seek_stop) (simp add: compareKeys_def sentinel_def)
  have ck0: "compareKeys ?l ?k (key sentinel) \<noteq> 0" by (simp add: compareKeys_def sentinel_def)
  have up: "put_descend (Suc h) ?l ?k v p (head ?l) bc =
            put_descend h ?l ?k v p (head ?l) (bc(h := id' p))" if "0 < h" for h p bc
  proof -
    have "head ?l h = 0" using that by (simp add: desc_list_simps zeroPointer_def)
    then show ?thesis by (simp add: put_descend.simps desc_getNode_0 s0 ck0)
  qed
  have sn: "\<And>p nx. put_seek ?l ?k 0 p nx (nodes ?l ! n) = Some (Inr (p, nx, nodes ?l ! n))"
    by (rule put_seek_stop) (simp add: desc_compare_head[OF n])
  have ckn: "compareKeys ?l ?k (key (nodes ?l ! n)) \<noteq> 0" by (simp add: desc_compare_head[OF n])
  have h0: "head ?l 0 = of_nat n" by (simp add: desc_list_simps)
  have low: "put_descend (Suc 0) ?l ?k v p (head ?l) bc = Some (Inr (Crumbs (bc(0 := id' p))))"
    for p bc
    by (simp add: put_descend.simps h0 desc_getNode_head[OF n] sn ckn)
  have five: "Suc highest = Suc (Suc (Suc (Suc (Suc 0))))"
    by (simp add: highest_def maxHeight_def)
  show ?thesis unfolding five by (simp add: up low)
qed

lemma desc_head_id: "n < 4294967296 \<Longrightarrow> id' (nodes (desc_list n) ! n) = of_nat n"
  by (simp add: desc_list_nth sentinel_def nullID_def desc_node_def)

lemma desc_Put:
  assumes n: "n < 4294967294"
  shows "Put (desc_list n) (desc_key (Suc n)) (Some [49]) = Some (Done (desc_list (Suc n)))"
proof -
  let ?l = "desc_list n"
  let ?k = "desc_key (Suc n)"
  let ?v = "Some [49] :: bytes"
  have n': "n < 4294967296" using n by simp
  have kn: "?k \<noteq> None" by (simp add: desc_key_def)
  have nf: "\<not> Full ?l" using n by (simp add: Full_def Count_def maxCount_def desc_list_simps)
  from desc_descend[OF n', of ?v] obtain bc where
    d: "put_descend (Suc highest) ?l ?k ?v zeroNode (head ?l) zeroPointer = Some (Inr (Crumbs bc))"
    by blast
  let ?ins = "\<lparr>id' = of_nat (Suc n), key = ?k, val = ?v, height = 0, next = zeroPointer\<rparr>"
  let ?l1 = "?l\<lparr>nodes := nodes ?l @ [?ins], src := zeroSource 0\<rparr>"
  have mk: "makeNode ?l ?k ?v = (?ins, ?l1)"
    by (simp add: makeNode_def desc_list_simps rollHeight_def Int63_def patterns_def pattern1_def
        zeroSource_def Let_def)
  let ?hn = "nodes ?l ! n"
  have g: "getNode ?l1 (head ?l1 0) = Inr ?hn"
    by (simp add: getNode_def desc_list_simps desc_unat[OF n'] nth_append)
  have "compareKeys ?l1 ?k (key ?hn) = compareKeys ?l ?k (key ?hn)"
    by (simp add: compareKeys_def)
  then have c: "compare ?l1 ?ins ?hn < 0"
    by (simp add: compare_def desc_compare_head[OF n'])
  let ?ins' = "?ins\<lparr>next := (next ?ins)(0 := id' ?hn)\<rparr>"
  let ?l2 = "?l1\<lparr>head := (head ?l1)(0 := id' ?ins)\<rparr>"
  have p1: "put_link (0 + 1) bc ?ins' ?l2 = (Inr ?ins', ?l2)"
    by (subst put_link.simps) simp
  have pl: "put_link 0 bc ?ins ?l1 = (Inr ?ins', ?l2)"
    by (subst put_link.simps) (simp only: g c p1 sum.case if_True, simp)
  have sn: "unat (of_nat (Suc n) :: 32 word) = Suc n" by (rule desc_unat) (use n in simp)
  let ?l3 = "?l2\<lparr>nodes := (nodes ?l2)[Suc n := ?ins']\<rparr>"
  have up: "updateNode ?l2 ?ins' = Inr ?l3"
    by (simp add: updateNode_def sn desc_list_simps del: of_nat_Suc)
  have ie: "?ins' = desc_node (Suc n)"
    by (simp add: desc_node_def desc_head_id[OF n'] del: of_nat_Suc)
  have "(nodes ?l @ [?ins])[Suc n := ?ins'] = nodes ?l @ [?ins']"
    using list_update_length[of "nodes ?l" ?ins "[]" ?ins'] by (simp add: desc_list_simps)
  also have "\<dots> = nodes (desc_list (Suc n))"
    unfolding ie by (simp add: desc_list_def)
  finally have ne: "nodes ?l3 = nodes (desc_list (Suc n))" by simp
  have e: "?l3 = desc_list (Suc n)"
    using ne by (simp add: desc_list_def del: upt_Suc of_nat_Suc)
  have "Put ?l ?k ?v = Some (Done ?l3)"
    unfolding Put_def using kn nf d mk pl up by simp
  with e show ?thesis by simp
qed

lemma run_puts_append:
  "run_puts l a = Some (Done l') \<Longrightarrow> run_puts l (a @ b) = run_puts l' b"
proof (induction a arbitrary: l)
  case Nil
  then show ?case by simp
next
  case (Cons x a)
  obtain k v where x: "x = (k, v)" by (cases x)
  from Cons.prems obtain l1 where p: "Put l k v = Some (Done l1)"
    and r: "run_puts l1 a = Some (Done l')"
    by (auto simp: x split: option.splits outcome.splits)
  from Cons.IH[OF r] p show ?case by (simp add: x)
qed

lemma desc_list_0: "desc_list 0 = NewSkipList zeroSource bytesCompare"
  by (simp add: desc_list_def NewSkipList_def sentinel_def zeroPointer_def fun_eq_iff)

lemma desc_ops_Suc: "desc_ops (Suc n) = desc_ops n @ [(desc_key (Suc n), Some [49])]"
  by (simp add: desc_ops_def)

lemma desc_run:
  "n \<le> 4294967294 \<Longrightarrow>
   run_puts (NewSkipList zeroSource bytesCompare) (desc_ops n) = Some (Done (desc_list n))"
proof (induction n)
  case 0
  then show ?case by (simp add: desc_ops_def desc_list_0)
next
  case (Suc n)
  then have n: "n < 4294967294" and r: "run_puts (NewSkipList zeroSource bytesCompare) (desc_ops n) =
      Some (Done (desc_list n))" by simp_all
  show ?case
    unfolding desc_ops_Suc run_puts_append[OF r] using desc_Put[OF n] by simp
qed

lemma desc_key_last: "desc_key 4294967294 = Some [1, 1]"
  by (simp add: desc_key_def numeral_2_eq_2)

lemma desc_full: "Full (desc_list 4294967294)"
  by (simp add: Full_def Count_def maxCount_def desc_list_simps)

lemma desc_Get_last:
  "Get (desc_list 4294967294) (desc_key 4294967294) = Some (Inr (Some [49], True))"
proof -
  let ?l = "desc_list 4294967294"
  have r: "run_puts (NewSkipList zeroSource bytesCompare) (desc_ops 4294967294) = Some (Done ?l)"
    by (rule desc_run) simp
  note w = reach_wf[OF total_order_bytesCompare r]
  have nd: "nodes ?l ! 4294967294 = desc_node 4294967294"
    using desc_list_nth[of 4294967294 4294967294] by simp
  have "bytesCompare (desc_key 4294967294) (desc_key 4294967294) = 0"
    using to_refl[OF total_order_bytesCompare] .
  then have st: "stored_at ?l (desc_key 4294967294) 4294967294"
    by (simp add: stored_at_def desc_list_simps keyAt_def nd desc_node_def)
  have "val (nodes ?l ! 4294967294) = Some [49]" by (simp add: nd desc_node_def)
  with Get_stored[OF w(1) w(3) st] show ?thesis by simp
qed

section \<open>Evaluation of the model on concrete lists\<close>

lemma put_descend_numeral:
  "put_descend (numeral w) l k v p nx bc =
     (case getNode l (nx (pred_numeral w)) of
        Inl e \<Rightarrow> Some (Inl e)
      | Inr c \<Rightarrow>
          (case put_seek l k (pred_numeral w) p nx c of
             None \<Rightarrow> None
           | Some (Inl e) \<Rightarrow> Some (Inl e)
           | Some (Inr (prevNd', nxt', currNd)) \<Rightarrow>
               if compareKeys l k (key currNd) = 0
               then (case updateNode l (currNd\<lparr>val := v\<rparr>) of
                       Inl e \<Rightarrow> Some (Inl e)
                     | Inr l' \<Rightarrow> Some (Inr (Updated l')))
               else put_descend (pred_numeral w) l k v prevNd' nxt'
                      (bc(pred_numeral w := id' prevNd'))))"
  by (simp add: numeral_eq_Suc put_descend.simps)

lemmas put_descend_1 = put_descend.simps(2)[of 0]

lemma get_descend_numeral:
  "get_descend (numeral w) l k p c =
     (case getNode l (p (pred_numeral w)) of
        Inl e \<Rightarrow> Some (Inl e)
      | Inr c \<Rightarrow>
          (case get_seek l k (pred_numeral w) p c of
             None \<Rightarrow> None
           | Some (Inl e) \<Rightarrow> Some (Inl e)
           | Some (Inr (ptr', c')) \<Rightarrow> get_descend (pred_numeral w) l k ptr' c'))"
  by (simp add: numeral_eq_Suc get_descend.simps)

lemmas get_descend_1 = get_descend.simps(2)[of 0]

lemma fun_upd_const: "(\<lambda>_. c)(x := c) = (\<lambda>_. c)"
  by auto

lemma Suc_highest: "Suc highest = 5"
  by (simp add: highest_def maxHeight_def)

lemma rollHeight_zeroSource: "rollHeight (zeroSource s) = (0, zeroSource s)"
  by (simp add: rollHeight_def Int63_def patterns_def pattern1_def zeroSource_def)

lemmas eval_put =
  Put_def Full_def Count_def maxCount_def Suc_highest maxHeight_def NewSkipList_def
  put_seek.simps put_link.simps getNode_def updateNode_def compareKeys_def compare_def
  makeNode_def rollHeight_zeroSource zeroNode_def zeroPointer_def nullID_def bytesCompare_def
  put_descend_numeral put_descend_1 Let_def fun_upd_const

lemma Put_empty_key:
  "Put (NewSkipList zeroSource bytesCompare) (Some []) (Some [1]) = Some (Done one_empty_key)"
  by (simp add: eval_put one_empty_key_def)

lemmas eval_get =
  Get_def Suc_highest get_seek.simps getNode_def compareKeys_def bytesCompare_def
  zeroNode_def zeroPointer_def get_descend_numeral get_descend_1

lemmas eval_iter =
  IterAll_def Iter_def Next_def firstNode_def getNode_def iterall_loop.simps zeroPointer_def

lemma run_abc:
  "run_puts (NewSkipList zeroSource bytesCompare) abc_ops = Some (Done abc_list)"
  by (simp add: eval_put abc_ops_def abc_list_def)

lemma IterAll_abc:
  "IterAll abc_list = Some (Inr [(Some [97], Some [49]), (Some [98], Some [50]), (Some [99], Some [51])])"
  by (simp add: eval_iter abc_list_def)

lemma Get_abc:
  "Get abc_list (Some [97]) = Some (Inr (Some [49], True))"
  "Get abc_list (Some [100]) = Some (Inr (None, False))"
  by (simp_all add: eval_get abc_list_def)

lemma Put_x1:
  "Put (NewSkipList zeroSource bytesCompare) (Some [120]) (Some [49]) = Some (Done (x_list (Some [49])))"
  by (simp add: eval_put x_list_def)

lemma Put_x2:
  "Put (x_list (Some [49])) (Some [120]) (Some [50]) = Some (Done (x_list (Some [50])))"
  by (simp add: eval_put x_list_def)

lemma Get_x2: "Get (x_list (Some [50])) (Some [120]) = Some (Inr (Some [50], True))"
  by (simp add: eval_get x_list_def)

section \<open>The claims\<close>

lemma pattern_masks:
  "pattern1 = mask 3" "pattern2 = mask 6" "pattern3 = mask 9" "pattern4 = mask 12"
  by (simp_all add: pattern1_def pattern2_def pattern3_def pattern4_def mask_eq_exp_minus_1)

text \<open>
  C5. For every draw, \<open>rollHeight\<close> returns a height of at most \<open>maxHeight - 1\<close>. It
  tests the masks of 3, 6, 9 and 12 low one-bits in this order, returns the number of
  masks matched before the first one that the draw does not match in full, and returns 4
  when all four match.
\<close>

theorem rollHeight_masks:
  "fst (rollHeight r) \<le> maxHeight - 1 \<and>
   fst (rollHeight r) =
     (if r 0 AND mask 3 \<noteq> mask 3 then 0
      else if r 0 AND mask 6 \<noteq> mask 6 then 1
      else if r 0 AND mask 9 \<noteq> mask 9 then 2
      else if r 0 AND mask 12 \<noteq> mask 12 then 3
      else 4)"
  by (simp add: rollHeight_def Int63_def patterns_def pattern_masks maxHeight_def)

text \<open>
  C7, as the spec states it, fails for the empty key: \<open>Put\<close> tests \<open>key == nil\<close> only,
  so the empty, non-nil key is stored like any other, and the count of a fresh list
  becomes 1.
\<close>

theorem Put_empty_key_counterexample:
  "Put (NewSkipList zeroSource bytesCompare) (Some []) (Some [1]) = Some (Done one_empty_key) \<and>
   Count one_empty_key = 1"
  by (simp add: Put_empty_key) (simp add: one_empty_key_def Count_def)

text \<open>
  C7, amended. \<open>Put\<close> with the absent (nil) key panics at once, and the list is the one
  it was called on, whatever that list is.
\<close>

theorem Put_nil_key_panics:
  "Put l None v = Some (Panic KeyNil l)"
  by (simp add: Put_def)

text \<open>
  C8. \<open>Put\<close> on a full list panics and leaves the list as it was (with the capacity
  error when the key is not nil: the nil key is tested first). And whatever a run of
  \<open>Put\<close> calls from a new list ends with, returned or panicked, the number of live nodes
  of the list is at most \<open>2^32 - 2\<close>.
\<close>

theorem full_put_panics_count_bounded:
  "(Full l \<longrightarrow> Put l k v = Some (Panic (if k = None then KeyNil else NoCapacity) l)) \<and>
   (run_puts (NewSkipList ns c) ops = Some r \<longrightarrow> Count (state_of r) \<le> 2 ^ 32 - 2)"
proof -
  have "Count (NewSkipList ns c) \<le> maxCount" by (simp add: New_Count maxCount_def)
  then have "run_puts (NewSkipList ns c) ops = Some r \<Longrightarrow> Count (state_of r) \<le> 2 ^ 32 - 2"
    using run_puts_Count_bound[of "NewSkipList ns c" ops r] by (simp add: maxCount_def)
  then show ?thesis by (auto simp: Put_def)
qed

theorem full_put_panics_count_bounded_witness:
  "Full full_list \<and>
   Put full_list (Some [1]) (Some [2]) = Some (Panic NoCapacity full_list) \<and>
   run_puts (NewSkipList zeroSource bytesCompare) [(Some [], Some [1])] = Some (Done one_empty_key) \<and>
   Count (state_of (Done one_empty_key)) \<le> 2 ^ 32 - 2"
proof -
  have f: "Full full_list" by (simp add: Full_def Count_def maxCount_def full_list_def)
  have r: "run_puts (NewSkipList zeroSource bytesCompare) [(Some [], Some [1])] = Some (Done one_empty_key)"
    by (simp add: Put_empty_key)
  from full_put_panics_count_bounded[of full_list "Some [1]" "Some [2]" zeroSource bytesCompare
      "[(Some [], Some [1])]" "Done one_empty_key"] f r
  show ?thesis by simp
qed

text \<open>
  C1. For a comparator that is a total order, every finite sequence of \<open>Put\<close> calls on
  a new list has an outcome (no call runs forever), and the full iteration \<open>IterAll\<close> of the
  list it leaves returns, with keys strictly ascending under the comparator, so that no
  two of them are equal under it. The iteration yields each live node of the arena, and
  as many pairs as \<open>Count\<close> says.
\<close>

theorem iteration_ascending:
  assumes "total_order c"
  shows "\<exists>r kvs. run_puts (NewSkipList ns c) ops = Some r \<and>
           IterAll (state_of r) = Some (Inr kvs) \<and>
           sorted_wrt (\<lambda>a b. c a b < 0) (map fst kvs) \<and>
           int (length kvs) = Count (state_of r) \<and>
           set kvs = {(key n, val n) | n. n \<in> set (tl (nodes (state_of r)))}"
proof -
  from reach_total[OF assms, of ns ops] obtain r where
    r: "run_puts (NewSkipList ns c) ops = Some r" and w: "wellformed (state_of r)"
    and c: "cmp (state_of r) = c" by blast
  have t: "total_order (cmp (state_of r))" using assms c by simp
  from IterAll_sorted[OF w t] r show ?thesis unfolding c by blast
qed

theorem iteration_ascending_witness:
  "total_order bytesCompare \<and>
   run_puts (NewSkipList zeroSource bytesCompare) abc_ops = Some (Done abc_list) \<and>
   IterAll abc_list =
     Some (Inr [(Some [97], Some [49]), (Some [98], Some [50]), (Some [99], Some [51])]) \<and>
   (\<exists>r kvs. run_puts (NewSkipList zeroSource bytesCompare) abc_ops = Some r \<and>
      IterAll (state_of r) = Some (Inr kvs) \<and>
      sorted_wrt (\<lambda>a b. bytesCompare a b < 0) (map fst kvs) \<and>
      int (length kvs) = Count (state_of r) \<and>
      set kvs = {(key n, val n) | n. n \<in> set (tl (nodes (state_of r)))})"
  using iteration_ascending[OF total_order_bytesCompare, of zeroSource abc_ops]
    total_order_bytesCompare run_abc IterAll_abc
  by (intro conjI)

text \<open>
  C2. For a comparator that is a total order and a run of \<open>Put\<close> calls on a new list
  that all return: if the run contains \<open>Put(k, v)\<close> and no later \<open>Put\<close> of the run has a
  key equal to \<open>k\<close> under the comparator, then \<open>Get(k)\<close> returns \<open>(v, true)\<close>; and if no
  \<open>Put\<close> of the run has a key equal to \<open>k\<close> under the comparator, \<open>Get(k)\<close> returns
  \<open>(nil, false)\<close>.
\<close>

theorem get_after_puts:
  assumes "total_order c" and "run_puts (NewSkipList ns c) ops = Some (Done l)"
  shows "(ops = before @ [(k, v)] @ after \<and> (\<forall>(k', v')\<in>set after. c k' k \<noteq> 0) \<longrightarrow>
            Get l k = Some (Inr (v, True))) \<and>
         ((\<forall>(k', v')\<in>set ops. c k k' \<noteq> 0) \<longrightarrow> Get l k = Some (Inr (None, False)))"
proof -
  note w = reach_wf[OF assms]
  have co: "case last_put c ops k of
        None \<Rightarrow> (\<forall>j. \<not> stored_at l k j)
      | Some v \<Rightarrow> (\<exists>j. stored_at l k j \<and> val (nodes l ! j) = v)"
    using reach_contents[OF assms] unfolding contents_ok_def w(2) by blast
  have a: "Get l k = Some (Inr (v, True))"
    if o: "ops = before @ [(k, v)] @ after" and n: "\<forall>(k', v')\<in>set after. c k' k \<noteq> 0"
  proof -
    have "\<forall>(k', v')\<in>set after. c k k' \<noteq> 0" using n to_sym[OF assms(1)] by auto
    then have "last_put c after k = None" by (rule last_put_None)
    then have "last_put c ops k = last_put c (before @ [(k, v)]) k"
      using last_put_append_None[of c after k "before @ [(k, v)]"] o by simp
    then have "last_put c ops k = Some v" using to_refl[OF assms(1)] by (simp add: last_put_snoc)
    with co obtain j where "stored_at l k j" "val (nodes l ! j) = v" by auto
    with Get_stored[OF w(1) w(3)] show ?thesis by simp
  qed
  have b: "Get l k = Some (Inr (None, False))" if "\<forall>(k', v')\<in>set ops. c k k' \<noteq> 0"
  proof -
    have "last_put c ops k = None" using that by (rule last_put_None)
    with co have "\<forall>j. \<not> stored_at l k j" by simp
    with Get_not_stored[OF w(1) w(3)] show ?thesis by simp
  qed
  from a b show ?thesis by blast
qed

theorem get_after_puts_witness:
  "total_order bytesCompare \<and>
   run_puts (NewSkipList zeroSource bytesCompare) abc_ops = Some (Done abc_list) \<and>
   abc_ops = [(Some [98], Some [50])] @ [(Some [97], Some [49])] @ [(Some [99], Some [51])] \<and>
   Get abc_list (Some [97]) = Some (Inr (Some [49], True)) \<and>
   Get abc_list (Some [100]) = Some (Inr (None, False))"
proof -
  have o: "abc_ops = [(Some [98], Some [50])] @ [(Some [97], Some [49])] @ [(Some [99], Some [51])]"
    by (simp add: abc_ops_def)
  have n1: "\<forall>(k', v')\<in>set [(Some [99], Some [51])]. bytesCompare k' (Some [97]) \<noteq> 0"
    by (simp add: bytesCompare_def)
  have n2: "\<forall>(k', v')\<in>set abc_ops. bytesCompare (Some [100]) k' \<noteq> 0"
    by (simp add: bytesCompare_def abc_ops_def)
  from get_after_puts[OF total_order_bytesCompare run_abc,
      of "[(Some [98], Some [50])]" "Some [97]" "Some [49]" "[(Some [99], Some [51])]"] o n1
  have g1: "Get abc_list (Some [97]) = Some (Inr (Some [49], True))" by blast
  from get_after_puts[OF total_order_bytesCompare run_abc, of _ "Some [100]"] n2
  have g2: "Get abc_list (Some [100]) = Some (Inr (None, False))" by blast
  from total_order_bytesCompare run_abc o g1 g2 show ?thesis by (intro conjI)
qed

text \<open>
  C3, as the spec states it, fails on a list that the first \<open>Put\<close> fills. After the
  \<open>2^32 - 3\<close> calls of \<open>desc_ops\<close> on a new list, \<open>Put\<close> of the key \<open>[1, 1]\<close> with the
  value "1" returns and adds the last node the capacity allows; \<open>Put\<close> of the same key
  with the value "2" then panics, because \<open>Put\<close> tests the capacity before it looks the
  key up, and \<open>Get\<close> of the key still returns "1".
\<close>

theorem put_same_key_twice_counterexample:
  "run_puts (NewSkipList zeroSource bytesCompare) (desc_ops 4294967293) =
     Some (Done (desc_list 4294967293)) \<and>
   Put (desc_list 4294967293) (Some [1, 1]) (Some [49]) = Some (Done (desc_list 4294967294)) \<and>
   Put (desc_list 4294967294) (Some [1, 1]) (Some [50]) =
     Some (Panic NoCapacity (desc_list 4294967294)) \<and>
   Get (desc_list 4294967294) (Some [1, 1]) = Some (Inr (Some [49], True))"
proof -
  have r: "run_puts (NewSkipList zeroSource bytesCompare) (desc_ops 4294967293) =
     Some (Done (desc_list 4294967293))" by (rule desc_run) simp
  have "Put (desc_list 4294967293) (desc_key (Suc 4294967293)) (Some [49]) =
      Some (Done (desc_list (Suc 4294967293)))" by (rule desc_Put) simp
  then have p1: "Put (desc_list 4294967293) (Some [1, 1]) (Some [49]) =
      Some (Done (desc_list 4294967294))" by (simp add: desc_key_last)
  have p2: "Put (desc_list 4294967294) (Some [1, 1]) (Some [50]) =
     Some (Panic NoCapacity (desc_list 4294967294))"
    using desc_full by (simp add: Put_def)
  have g: "Get (desc_list 4294967294) (Some [1, 1]) = Some (Inr (Some [49], True))"
    using desc_Get_last by (simp add: desc_key_last)
  from r p1 p2 g show ?thesis by (intro conjI)
qed

text \<open>
  C3, amended. On a list that a run of \<open>Put\<close> calls has built with a comparator that is a
  total order: when \<open>Put(k, v1)\<close> has returned and the list is not full, \<open>Put(k, v2)\<close>
  returns, \<open>Get(k)\<close> then returns \<open>(v2, true)\<close>, \<open>Count\<close> is what it was before the second
  call, and the list differs from the one before the second call in the value of one node
  only: no node is added and no link is changed.
\<close>

theorem put_same_key_twice:
  assumes "total_order c" and "run_puts (NewSkipList ns c) ops = Some (Done l)"
    and "Put l k v1 = Some (Done l1)" and "\<not> Full l1"
  shows "\<exists>l2 j. Put l1 k v2 = Some (Done l2) \<and>
           Get l2 k = Some (Inr (v2, True)) \<and>
           Count l2 = Count l1 \<and>
           0 < j \<and> j < length (nodes l1) \<and>
           l2 = l1\<lparr>nodes := (nodes l1)[j := (nodes l1 ! j)\<lparr>val := v2\<rparr>]\<rparr>"
proof -
  note w = reach_wf[OF assms(1,2)]
  note s = Put_Done_wf[OF w(1) w(3) assms(3)]
  have t1: "total_order (cmp l1)" using s(2) w(3) by simp
  have kn: "k \<noteq> None" using Put_Done_guards[OF assms(3)] by simp
  have kk: "cmp l k k = 0" using to_refl[OF w(3)] .
  have st: "\<exists>j. stored_at l1 k j"
    using s(3)
  proof
    assume "\<exists>j. stored_at l k j \<and> l1 = put_update l j v1"
    then show ?thesis by (auto simp: put_update_stored)
  next
    assume "(\<forall>j. \<not> stored_at l k j) \<and> put_insert l k v1 l1"
    then have "stored_at l1 k (length (nodes l))"
      using put_insert_stored[OF _ s(2) wf_length[OF w(1)], of k v1 k] kk by simp
    then show ?thesis by blast
  qed
  from Put_total[OF s(1) t1 kn assms(4), of v2] st obtain l2 j where
    p2: "Put l1 k v2 = Some (Done l2)" and w2: "wellformed l2" and c2: "cmp l2 = cmp l1"
    and j: "stored_at l1 k j" and l2: "l2 = put_update l1 j v2" by blast
  have jl: "0 < j" "j < length (nodes l1)" using j by (simp_all add: stored_at_def)
  have "stored_at l2 k j" using j by (simp add: l2 put_update_stored)
  moreover have "val (nodes l2 ! j) = v2" using jl by (simp add: l2 put_update_val)
  ultimately have g: "Get l2 k = Some (Inr (v2, True))"
    using Get_stored[OF w2, of k j] t1 c2 by simp
  have cn: "Count l2 = Count l1" by (simp add: l2 put_update_def Count_def)
  from p2 g cn jl l2 show ?thesis unfolding put_update_def by blast
qed

theorem put_same_key_twice_witness:
  "total_order bytesCompare \<and>
   run_puts (NewSkipList zeroSource bytesCompare) [] = Some (Done (NewSkipList zeroSource bytesCompare)) \<and>
   Put (NewSkipList zeroSource bytesCompare) (Some [120]) (Some [49]) = Some (Done (x_list (Some [49]))) \<and>
   \<not> Full (x_list (Some [49])) \<and>
   Put (x_list (Some [49])) (Some [120]) (Some [50]) = Some (Done (x_list (Some [50]))) \<and>
   Get (x_list (Some [50])) (Some [120]) = Some (Inr (Some [50], True)) \<and>
   Count (x_list (Some [50])) = 1 \<and>
   Count (x_list (Some [49])) = 1 \<and>
   (\<exists>l2 j. Put (x_list (Some [49])) (Some [120]) (Some [50]) = Some (Done l2) \<and>
           Get l2 (Some [120]) = Some (Inr (Some [50], True)) \<and>
           Count l2 = Count (x_list (Some [49])) \<and>
           0 < j \<and> j < length (nodes (x_list (Some [49]))) \<and>
           l2 = (x_list (Some [49]))\<lparr>nodes := (nodes (x_list (Some [49])))
                  [j := (nodes (x_list (Some [49])) ! j)\<lparr>val := Some [50]\<rparr>]\<rparr>)"
proof -
  have r: "run_puts (NewSkipList zeroSource bytesCompare) [] =
      Some (Done (NewSkipList zeroSource bytesCompare))" by simp
  have nf: "\<not> Full (x_list (Some [49]))"
    by (simp add: Full_def Count_def maxCount_def x_list_def)
  have cn: "Count (x_list (Some [50])) = 1" "Count (x_list (Some [49])) = 1"
    by (simp_all add: Count_def x_list_def)
  from put_same_key_twice[OF total_order_bytesCompare r Put_x1 nf, of "Some [50]"]
    total_order_bytesCompare r Put_x1 nf Put_x2 Get_x2 cn
  show ?thesis by (intro conjI)
qed

text \<open>
  C4. On a list that a run of \<open>Put\<close> calls has built with a comparator that is a total
  order, for a \<open>Put(k, v)\<close> that returns: \<open>Has(k)\<close> before the call returns true or false;
  when it is true (the key is already present, that is, a \<open>Put\<close> of the run had a key
  equal to \<open>k\<close> under the comparator) \<open>Count\<close> is unchanged by the call, and when it is
  false \<open>Count\<close> grows by exactly 1.
\<close>

theorem count_step:
  assumes "total_order c" and "run_puts (NewSkipList ns c) ops = Some (Done l)"
    and "Put l k v = Some (Done l')"
  shows "(Has l k = Some (Inr True) \<or> Has l k = Some (Inr False)) \<and>
         (Has l k = Some (Inr True) \<longrightarrow> Count l' = Count l) \<and>
         (Has l k = Some (Inr False) \<longrightarrow> Count l' = Count l + 1) \<and>
         ((Has l k = Some (Inr True)) = (\<exists>(k', v')\<in>set ops. c k k' = 0))"
proof -
  note w = reach_wf[OF assms(1,2)]
  note s = Put_Done_wf[OF w(1) w(3) assms(3)]
  have co: "case last_put c ops k of
        None \<Rightarrow> (\<forall>j. \<not> stored_at l k j)
      | Some v \<Rightarrow> (\<exists>j. stored_at l k j \<and> val (nodes l ! j) = v)"
    using reach_contents[OF assms(1,2)] unfolding contents_ok_def w(2) by blast
  have pres: "(\<exists>j. stored_at l k j) = (\<exists>(k', v')\<in>set ops. c k k' = 0)"
    using co last_put_Some_iff[of c ops k] by (cases "last_put c ops k") auto
  show ?thesis
  proof (cases "\<exists>j. stored_at l k j")
    case True
    then obtain j where j: "stored_at l k j" by blast
    have h: "Has l k = Some (Inr True)" using Get_stored[OF w(1) w(3) j] by (simp add: Has_def)
    from s(3) j obtain i where "l' = put_update l i v" by blast
    then have "Count l' = Count l" by (simp add: put_update_def Count_def)
    with h pres True show ?thesis by simp
  next
    case False
    then have n: "\<forall>j. \<not> stored_at l k j" by simp
    have h: "Has l k = Some (Inr False)" using Get_not_stored[OF w(1) w(3) n] by (simp add: Has_def)
    from s(3) n have "put_insert l k v l'" by blast
    then have "Count l' = Count l + 1" by (simp add: put_insert_def Count_def)
    with h pres False show ?thesis by simp
  qed
qed

theorem count_step_witness:
  "total_order bytesCompare \<and>
   run_puts (NewSkipList zeroSource bytesCompare) [] = Some (Done (NewSkipList zeroSource bytesCompare)) \<and>
   Put (NewSkipList zeroSource bytesCompare) (Some [120]) (Some [49]) = Some (Done (x_list (Some [49]))) \<and>
   Has (NewSkipList zeroSource bytesCompare) (Some [120]) = Some (Inr False) \<and>
   Count (x_list (Some [49])) = Count (NewSkipList zeroSource bytesCompare) + 1 \<and>
   run_puts (NewSkipList zeroSource bytesCompare) [(Some [120], Some [49])] =
     Some (Done (x_list (Some [49]))) \<and>
   Put (x_list (Some [49])) (Some [120]) (Some [50]) = Some (Done (x_list (Some [50]))) \<and>
   Has (x_list (Some [49])) (Some [120]) = Some (Inr True) \<and>
   Count (x_list (Some [50])) = Count (x_list (Some [49]))"
proof -
  let ?new = "NewSkipList zeroSource bytesCompare"
  have r0: "run_puts ?new [] = Some (Done ?new)" by simp
  have r1: "run_puts ?new [(Some [120], Some [49])] = Some (Done (x_list (Some [49])))"
    by (simp add: Put_x1)
  have h0: "Has ?new (Some [120]) = Some (Inr False)"
    by (simp add: Has_def eval_get NewSkipList_def nullID_def)
  have h1: "Has (x_list (Some [49])) (Some [120]) = Some (Inr True)"
    by (simp add: Has_def eval_get x_list_def)
  from count_step[OF total_order_bytesCompare r0 Put_x1] h0
  have c0: "Count (x_list (Some [49])) = Count ?new + 1" by blast
  from count_step[OF total_order_bytesCompare r1 Put_x2] h1
  have c1: "Count (x_list (Some [50])) = Count (x_list (Some [49]))" by blast
  from total_order_bytesCompare r0 Put_x1 h0 c0 r1 Put_x2 h1 c1 show ?thesis by (intro conjI)
qed

text \<open>
  C6. Two new lists whose random sources are seeded alike (the sources that
  \<open>rand.NewSource\<close> gives for the seed 0 make the same draws), given the same run of
  \<open>Put\<close> calls, end as the same list: the same head vector and the same nodes, hence the
  same heights and the same next links. With a comparator that is a total order, the
  height of the \<open>i\<close>-th node of the arena is what \<open>rollHeight\<close> makes of the \<open>i\<close>-th draw of
  that source, whatever the keys and values are.
\<close>

theorem puts_deterministic:
  assumes "ns1 0 = ns2 0"
    and "run_puts (NewSkipList ns1 c) ops = Some (Done l1)"
    and "run_puts (NewSkipList ns2 c) ops = Some (Done l2)"
  shows "head l1 = head l2 \<and> nodes l1 = nodes l2 \<and>
         map height (nodes l1) = map height (nodes l2) \<and>
         map next (nodes l1) = map next (nodes l2) \<and>
         (total_order c \<longrightarrow>
            (\<forall>i. 0 < i \<and> i < length (nodes l1) \<longrightarrow>
               height (nodes l1 ! i) = fst (rollHeight (\<lambda>m. ns1 0 (m + (i - 1))))))"
proof -
  have "NewSkipList ns1 c = NewSkipList ns2 c" using assms(1) by (simp add: NewSkipList_def)
  with assms(2,3) have e: "l1 = l2" by simp
  have "height (nodes l1 ! i) = fst (rollHeight (\<lambda>m. ns1 0 (m + (i - 1))))"
    if "total_order c" "0 < i" "i < length (nodes l1)" for i
    using reach_heights[OF that(1) assms(2)] that(2,3) by (simp add: heights_ok_def)
  with e show ?thesis by simp
qed

theorem puts_deterministic_witness:
  "zeroSource 0 = zeroSource 0 \<and>
   run_puts (NewSkipList zeroSource bytesCompare) abc_ops = Some (Done abc_list) \<and>
   total_order bytesCompare \<and>
   height (nodes abc_list ! 2) = fst (rollHeight (\<lambda>m. zeroSource 0 (m + (2 - 1)))) \<and>
   head abc_list = head abc_list \<and>
   map next (nodes abc_list) = map next (nodes abc_list)"
proof -
  have l: "(2::nat) < length (nodes abc_list)" by (simp add: abc_list_def)
  from puts_deterministic[OF refl run_abc run_abc] total_order_bytesCompare l
  have h: "height (nodes abc_list ! 2) = fst (rollHeight (\<lambda>m. zeroSource 0 (m + (2 - 1))))"
    by simp
  from run_abc total_order_bytesCompare h show ?thesis by simp
qed

text \<open>
  C9. On a list that a run of \<open>Put\<close> calls has built with a comparator that is a total
  order, the \<open>next[0]\<close> of the sentinel is 0, its own identifier, and \<open>Iter\<close> returns an
  iterator. After any number of \<open>Next\<close> calls on it (none of which fails) the following
  \<open>Next\<close> returns too; when the key it returns is nil, the value is nil as well, and from
  then on every \<open>Next\<close> returns \<open>(nil, nil)\<close> and leaves the iterator as it is.
\<close>

theorem iterator_end_is_stable:
  assumes "total_order c" and "run_puts (NewSkipList ns c) ops = Some (Done l)"
  shows "next (nodes l ! 0) 0 = nullID \<and>
     (\<exists>it0. Iter l = Inr it0 \<and>
       (\<forall>n. \<exists>it kv it'. next_n n it0 = Inr it \<and> Next it = Inr (kv, it') \<and>
          (fst kv = None \<longrightarrow>
             kv = (None, None) \<and> Next it' = Inr ((None, None), it') \<and>
             (\<forall>m. next_n m it' = Inr it'))))"
proof -
  note w = reach_wf[OF assms]
  have "next (nodes l ! 0) 0 = nullID"
    using wf_sentinel[OF w(1)] by (simp add: sentinel_def zeroPointer_def nullID_def)
  with iterator_total[OF w(1)] show ?thesis by blast
qed

theorem iterator_end_is_stable_witness:
  "total_order bytesCompare \<and>
   run_puts (NewSkipList zeroSource bytesCompare) abc_ops = Some (Done abc_list) \<and>
   next (nodes abc_list ! 0) 0 = nullID \<and>
   (\<exists>it0. Iter abc_list = Inr it0 \<and>
     (\<forall>n. \<exists>it kv it'. next_n n it0 = Inr it \<and> Next it = Inr (kv, it') \<and>
        (fst kv = None \<longrightarrow>
           kv = (None, None) \<and> Next it' = Inr ((None, None), it') \<and>
           (\<forall>m. next_n m it' = Inr it'))))"
  using iterator_end_is_stable[OF total_order_bytesCompare run_abc]
    total_order_bytesCompare run_abc
  by (intro conjI) blast+

text \<open>
  C10. With a comparator that is a total order, every sequence of \<open>Put\<close> calls on a new
  list has an outcome, and a panic among them is that of the nil key or of the full list,
  never an access out of range (\<open>Get\<close> changes nothing). In the list it leaves, every
  entry of the head vector and every entry of the next array of every node of the arena
  is an index below the length of the arena (the sentinel counted as a stored node); and
  on that list \<open>Get\<close> and \<open>IterAll\<close> return a result, and \<open>Put\<close> returns, or panics on
  the nil key or on the full list with the list unchanged.
\<close>

theorem arena_indices_in_range:
  assumes "total_order c"
  shows "\<exists>r. run_puts (NewSkipList ns c) ops = Some r \<and>
         (\<forall>e l'. r = Panic e l' \<longrightarrow> e = KeyNil \<or> e = NoCapacity) \<and>
         (\<forall>h<maxHeight. unat (head (state_of r) h) < length (nodes (state_of r))) \<and>
         (\<forall>i<length (nodes (state_of r)). \<forall>h<maxHeight.
            unat (next (nodes (state_of r) ! i) h) < length (nodes (state_of r))) \<and>
         (\<exists>g. Get (state_of r) k = Some (Inr g)) \<and>
         (\<exists>kvs. IterAll (state_of r) = Some (Inr kvs)) \<and>
         (Put (state_of r) k v = Some (Panic KeyNil (state_of r)) \<or>
          Put (state_of r) k v = Some (Panic NoCapacity (state_of r)) \<or>
          (\<exists>l'. Put (state_of r) k v = Some (Done l')))"
proof -
  from reach_total[OF assms, of ns ops] obtain r where
    r: "run_puts (NewSkipList ns c) ops = Some r" and w: "wellformed (state_of r)"
    and c: "cmp (state_of r) = c"
    and e: "\<forall>e l'. r = Panic e l' \<longrightarrow> e = KeyNil \<or> e = NoCapacity" by blast
  have t: "total_order (cmp (state_of r))" using assms c by simp
  have g: "\<exists>g. Get (state_of r) k = Some (Inr g)" using Get_total[OF w t, of k] by blast
  have i: "\<exists>kvs. IterAll (state_of r) = Some (Inr kvs)" using IterAll_sorted[OF w t] by blast
  from r e wf_bounds[OF w] g i Put_never_out_of_range[OF w t, of k v]
  show ?thesis by (intro exI[of _ r] conjI)
qed

theorem arena_indices_in_range_witness:
  "total_order bytesCompare \<and>
   run_puts (NewSkipList zeroSource bytesCompare) abc_ops = Some (Done abc_list) \<and>
   unat (head abc_list 0) < length (nodes abc_list) \<and>
   unat (next (nodes abc_list ! 1) 0) < length (nodes abc_list) \<and>
   Get abc_list (Some [97]) = Some (Inr (Some [49], True)) \<and>
   (\<exists>kvs. IterAll abc_list = Some (Inr kvs))"
proof -
  from arena_indices_in_range[OF total_order_bytesCompare, of zeroSource abc_ops "Some [97]" None]
  have a: "(\<forall>h<maxHeight. unat (head abc_list h) < length (nodes abc_list)) \<and>
         (\<forall>i<length (nodes abc_list). \<forall>h<maxHeight.
            unat (next (nodes abc_list ! i) h) < length (nodes abc_list)) \<and>
         (\<exists>kvs. IterAll abc_list = Some (Inr kvs))"
    by (auto simp: run_abc)
  have m: "0 < maxHeight" by (simp add: maxHeight_def)
  have l: "1 < length (nodes abc_list)" by (simp add: abc_list_def)
  from a m have b1: "unat (head abc_list 0) < length (nodes abc_list)" by blast
  from a m l have b2: "unat (next (nodes abc_list ! 1) 0) < length (nodes abc_list)" by blast
  from a have b3: "\<exists>kvs. IterAll abc_list = Some (Inr kvs)" by blast
  from total_order_bytesCompare run_abc b1 b2 Get_abc(1) b3 show ?thesis by (intro conjI)
qed

end
